theory Spec2Isabelle
  imports Main
begin

section \<open>The object store of \<open>expressions.py\<close>\<close>

text \<open>
  The module builds expression trees out of mutable Python objects that point at each
  other: a composite keeps its operands in a list of slots, and every node keeps a
  back-pointer \<open>parent = (owner, key)\<close>. Ownership depends on which object a
  reference denotes, so the model is an explicit store from references to objects.

  Every class of the module is one constructor of \<open>node\<close>, carrying exactly the
  attributes its \<open>__init__\<close> sets. The subclasses of \<open>uexpr_t\<close> and \<open>bexpr_t\<close> carry
  the same attributes and differ in the operator string they hand to the base class,
  in \<open>__str__\<close> and in the methods of \<open>assign_t\<close>, \<open>add_t\<close> and \<open>sub_t\<close> given below,
  so they are the tags \<open>ukind\<close> and \<open>bkind\<close>; \<open>ternary_if_t\<close> is the only subclass of
  \<open>texpr_t\<close>.
  The operand list of a composite has the length its constructor receives and no method
  changes that length, so the slots are constructor arguments and \<open>operands\<close> reads them
  back as the list.

  Slot keys are Python list indices: integers, a negative key counting from the end of
  the slot list, a key outside the list raising IndexError. The parent link keeps the
  key as it was given.
\<close>

type_synonym ref = nat

datatype error = AssertionError | AttributeError | IndexError | TypeError | RuntimeError

datatype regcls = regloc_t | flagloc_t

datatype ukind =
    not_t | b_not_t | deref_t | address_t | neg_t
  | preinc_t | predec_t | postinc_t | postdec_t
  | sign_t | overflow_t | parity_t | adjust_t | carry_t

datatype bkind =
    comma_t | assign_t | add_t | sub_t | mul_t | div_t | shl_t | shr_t
  | xor_t | and_t | or_t | b_and_t | b_or_t
  | eq_t | neq_t | leq_t | aeq_t | lower_t | above_t

datatype node =
    Regloc regcls int "string option" "int option"
  | Value_t "int option"
  | Var_t ref string
  | Arg_t ref string
  | Call_t "ref option" "ref option"
  | Uexpr ukind "ref option"
  | Bexpr bkind "ref option" "ref option"
  | Ternary_if_t "ref option" "ref option" "ref option"

text \<open>
  \<open>Regloc c which name index\<close>; \<open>Value_t value\<close> (the payload may be \<open>None\<close>, which
  \<open>__str__\<close> tests for); \<open>Var_t where name\<close> and \<open>Arg_t where name\<close>; the composites
  hold their slots, each \<open>None\<close> or a reference.
\<close>

record obj =
  parent :: "(ref \<times> int) option"
  is_def :: bool
  node :: node

record heap =
  objs :: "ref \<Rightarrow> obj"
  nxt :: ref

definition set_parent :: "heap \<Rightarrow> ref \<Rightarrow> (ref \<times> int) option \<Rightarrow> heap" where
  "set_parent h r p = h\<lparr>objs := (objs h)(r := (objs h r)\<lparr>parent := p\<rparr>)\<rparr>"

definition set_is_def :: "heap \<Rightarrow> ref \<Rightarrow> bool \<Rightarrow> heap" where
  "set_is_def h r b = h\<lparr>objs := (objs h)(r := (objs h r)\<lparr>is_def := b\<rparr>)\<rparr>"

definition set_node :: "heap \<Rightarrow> ref \<Rightarrow> node \<Rightarrow> heap" where
  "set_node h r nd = h\<lparr>objs := (objs h)(r := (objs h r)\<lparr>node := nd\<rparr>)\<rparr>"

subsection \<open>Classes\<close>

text \<open>\<open>isinstance(x, expr_t)\<close>: the classes that have \<open>__getitem__\<close>, \<open>__setitem__\<close>.\<close>

fun is_expr :: "node \<Rightarrow> bool" where
  "is_expr (Call_t f p) = True"
| "is_expr (Uexpr k a) = True"
| "is_expr (Bexpr k a b) = True"
| "is_expr (Ternary_if_t a b c) = True"
| "is_expr _ = False"

text \<open>
  \<open>isinstance(x, assignable_t)\<close>: \<open>regloc_t\<close> (and its subclass \<open>flagloc_t\<close>), \<open>var_t\<close>,
  \<open>arg_t\<close> and \<open>deref_t\<close> list \<open>assignable_t\<close> among their bases.
\<close>

fun is_assignable :: "node \<Rightarrow> bool" where
  "is_assignable (Regloc c w n i) = True"
| "is_assignable (Var_t w n) = True"
| "is_assignable (Arg_t w n) = True"
| "is_assignable (Uexpr k a) = (k = deref_t)"
| "is_assignable _ = False"

text \<open>\<open>type(x) in (regloc_t, var_t, arg_t)\<close>: the exact class, so \<open>flagloc_t\<close> is not in it.\<close>

fun is_plain_leaf :: "node \<Rightarrow> bool" where
  "is_plain_leaf (Regloc c w n i) = (c = regloc_t)"
| "is_plain_leaf (Var_t w n) = True"
| "is_plain_leaf (Arg_t w n) = True"
| "is_plain_leaf _ = False"

fun operands :: "node \<Rightarrow> ref option list" where
  "operands (Call_t f p) = [f, p]"
| "operands (Uexpr k a) = [a]"
| "operands (Bexpr k a b) = [a, b]"
| "operands (Ternary_if_t a b c) = [a, b, c]"
| "operands _ = []"

text \<open>
  The position a list of \<open>len\<close> elements gives to the index \<open>key\<close>; \<open>None\<close> is the
  IndexError.
\<close>

definition py_index :: "nat \<Rightarrow> int \<Rightarrow> nat option" where
  "py_index len key =
     (if 0 \<le> key \<and> key < int len then Some (nat key)
      else if - int len \<le> key \<and> key < 0 then Some (nat (key + int len))
      else None)"

text \<open>\<open>self.__operands[i] = value\<close> at the position \<open>i\<close> of the slots of a composite.\<close>

fun store_operand :: "node \<Rightarrow> nat \<Rightarrow> ref option \<Rightarrow> node" where
  "store_operand (Call_t f p) key v = (if key = 0 then Call_t v p else Call_t f v)"
| "store_operand (Uexpr k a) key v = Uexpr k v"
| "store_operand (Bexpr k a b) key v = (if key = 0 then Bexpr k v b else Bexpr k a v)"
| "store_operand (Ternary_if_t a b c) key v =
     (if key = 0 then Ternary_if_t v b c
      else if key = 1 then Ternary_if_t a v c else Ternary_if_t a b v)"
| "store_operand nd key v = nd"

subsection \<open>\<open>expr_t.__getitem__\<close>\<close>

definition getitem :: "heap \<Rightarrow> ref \<Rightarrow> int \<Rightarrow> error + ref option" where
  "getitem h self key =
     (let nd = node (objs h self) in
      if \<not> is_expr nd then Inl TypeError
      else
        (case py_index (length (operands nd)) key of
           None \<Rightarrow> Inl IndexError
         | Some i \<Rightarrow> Inr (operands nd ! i)))"

section \<open>Rendering\<close>

text \<open>
  The module asks IDA for names and strings: \<open>idc.GetString\<close> and \<open>idautils.Names\<close> are
  not part of the repository. They are parameters of the rendering, together with the
  builtin \<open>repr\<close> on strings. \<open>get_string\<close> is the method \<open>value_t.get_string\<close>: the text
  \<open>idc.GetString\<close> returns, and \<open>None\<close> when it returns \<open>None\<close> or raises.
\<close>

record env =
  get_string :: "int \<Rightarrow> string option"
  names :: "int \<Rightarrow> string option"
  py_repr :: "string \<Rightarrow> string"

subsection \<open>\<open>%u\<close> and \<open>%x\<close>\<close>

definition digit_char :: "nat \<Rightarrow> char" where
  "digit_char d = ''0123456789abcdef'' ! d"

fun dec_digits :: "nat \<Rightarrow> string" where
  "dec_digits n = (if n < 10 then [digit_char n] else dec_digits (n div 10) @ [digit_char (n mod 10)])"

fun hex_digits :: "nat \<Rightarrow> string" where
  "hex_digits n = (if n < 16 then [digit_char n] else hex_digits (n div 16) @ [digit_char (n mod 16)])"

text \<open>Python formats a negative number under \<open>%u\<close> and \<open>%x\<close> with a minus sign.\<close>

definition fmt_u :: "int \<Rightarrow> string" where
  "fmt_u v = (if v < 0 then ''-'' @ dec_digits (nat (- v)) else dec_digits (nat v))"

definition fmt_x :: "int \<Rightarrow> string" where
  "fmt_x v = (if v < 0 then ''-'' @ hex_digits (nat (- v)) else hex_digits (nat v))"

subsection \<open>Leaves\<close>

definition regs :: "string list" where
  "regs = [''eax'', ''ecx'', ''edx'', ''ebx'', ''esp'', ''ebp'', ''esi'', ''edi'']"

text \<open>
  \<open>regloc_t.regname\<close>. A negative \<open>which\<close> passes the test against \<open>len(regs)\<close> and
  indexes the list from its end, down to \<open>-len(regs)\<close>.
\<close>

definition regname :: "int \<Rightarrow> error + string" where
  "regname which =
     (if which \<ge> int (length regs) then Inr (''<#'' @ fmt_u which @ ''>'')
      else if 0 \<le> which then Inr (regs ! nat which)
      else if - int (length regs) \<le> which then Inr (regs ! nat (which + int (length regs)))
      else Inl IndexError)"

text \<open>\<open>regloc_t.__str__\<close>; \<open>if self.name\<close> holds for a string that is not empty.\<close>

definition regloc_str :: "int \<Rightarrow> string option \<Rightarrow> int option \<Rightarrow> error + string" where
  "regloc_str which name index =
     (case (case name of
              None \<Rightarrow> regname which
            | Some s \<Rightarrow> if s \<noteq> [] then Inr s else regname which) of
        Inl e \<Rightarrow> Inl e
      | Inr nm \<Rightarrow>
          (case index of
             None \<Rightarrow> Inr nm
           | Some i \<Rightarrow> Inr (nm @ ''@'' @ fmt_u i)))"

text \<open>\<open>value_t.__str__\<close>.\<close>

definition value_str :: "env \<Rightarrow> int option \<Rightarrow> string" where
  "value_str E v =
     (case v of
        None \<Rightarrow> ''<none!>''
      | Some n \<Rightarrow>
         (case (case get_string E n of
                  None \<Rightarrow> None
                | Some s \<Rightarrow> if s \<noteq> [] then Some s else None) of
            Some s \<Rightarrow> py_repr E s
          | None \<Rightarrow>
             (case names E n of
                Some nm \<Rightarrow> nm
              | None \<Rightarrow> if n < 16 then fmt_u n else ''0x'' @ fmt_x n)))"

subsection \<open>Composites\<close>

text \<open>
  The \<open>__str__\<close> of each subclass of \<open>uexpr_t\<close>, given whether
  \<open>type(self.op) in (regloc_t, var_t, arg_t)\<close> and the text of the operand.
\<close>

fun uexpr_str :: "ukind \<Rightarrow> bool \<Rightarrow> string \<Rightarrow> string" where
  "uexpr_str not_t plain s = (if plain then ''~'' @ s else ''~('' @ s @ '')'')"
| "uexpr_str b_not_t plain s = (if plain then ''!'' @ s else ''!('' @ s @ '')'')"
| "uexpr_str deref_t plain s = (if plain then ''*'' @ s else ''*('' @ s @ '')'')"
| "uexpr_str address_t plain s = (if plain then ''&'' @ s else ''&('' @ s @ '')'')"
| "uexpr_str neg_t plain s = (if plain then ''-'' @ s else ''-('' @ s @ '')'')"
| "uexpr_str preinc_t plain s = (if plain then ''++'' @ s else ''++('' @ s @ '')'')"
| "uexpr_str predec_t plain s = (if plain then ''--'' @ s else ''--('' @ s @ '')'')"
| "uexpr_str postinc_t plain s = (if plain then s @ ''++'' else ''('' @ s @ '')++'')"
| "uexpr_str postdec_t plain s = (if plain then s @ ''--'' else ''('' @ s @ '')--'')"
| "uexpr_str sign_t plain s = ''SIGN('' @ s @ '')''"
| "uexpr_str overflow_t plain s = ''OVERFLOW('' @ s @ '')''"
| "uexpr_str parity_t plain s = ''PARITY('' @ s @ '')''"
| "uexpr_str adjust_t plain s = ''ADJUST('' @ s @ '')''"
| "uexpr_str carry_t plain s = ''CARRY('' @ s @ '')''"

text \<open>The format string of each subclass of \<open>bexpr_t\<close>, without its two \<open>%s\<close>.\<close>

fun bexpr_sep :: "bkind \<Rightarrow> string" where
  "bexpr_sep comma_t = '', ''"
| "bexpr_sep assign_t = '' = ''"
| "bexpr_sep add_t = '' + ''"
| "bexpr_sep sub_t = '' - ''"
| "bexpr_sep mul_t = '' * ''"
| "bexpr_sep div_t = '' / ''"
| "bexpr_sep shl_t = '' << ''"
| "bexpr_sep shr_t = '' >> ''"
| "bexpr_sep xor_t = '' ^ ''"
| "bexpr_sep and_t = '' & ''"
| "bexpr_sep or_t = '' | ''"
| "bexpr_sep b_and_t = '' && ''"
| "bexpr_sep b_or_t = '' || ''"
| "bexpr_sep eq_t = '' == ''"
| "bexpr_sep neq_t = '' != ''"
| "bexpr_sep leq_t = '' <= ''"
| "bexpr_sep aeq_t = '' >= ''"
| "bexpr_sep lower_t = '' < ''"
| "bexpr_sep above_t = '' > ''"

text \<open>
  The recursive functions of the module follow references, and the store may hold a
  cycle, on which Python stops with its recursion limit. They take that limit as a
  number of nested calls; \<open>None\<close> is the run that exceeds it.
\<close>

definition bnd :: "(error + 'a) option \<Rightarrow> ('a \<Rightarrow> (error + 'b) option) \<Rightarrow> (error + 'b) option" where
  "bnd m f = (case m of None \<Rightarrow> None | Some (Inl e) \<Rightarrow> Some (Inl e) | Some (Inr x) \<Rightarrow> f x)"

definition plain_operand :: "heap \<Rightarrow> ref option \<Rightarrow> bool" where
  "plain_operand h v = (case v of None \<Rightarrow> False | Some r \<Rightarrow> is_plain_leaf (node (objs h r)))"

text \<open>\<open>str(x)\<close> for \<open>x\<close> a node or \<open>None\<close>.\<close>

fun py_str :: "env \<Rightarrow> nat \<Rightarrow> heap \<Rightarrow> ref option \<Rightarrow> (error + string) option" where
  "py_str E 0 h v = None"
| "py_str E (Suc n) h None = Some (Inr ''None'')"
| "py_str E (Suc n) h (Some r) =
     (case node (objs h r) of
        Regloc c which name index \<Rightarrow> Some (regloc_str which name index)
      | Value_t v \<Rightarrow> Some (Inr (value_str E v))
      | Var_t w name \<Rightarrow> Some (Inr name)
      | Arg_t w name \<Rightarrow>
         (case node (objs h w) of
            Regloc c which' name' index' \<Rightarrow>
              if c = regloc_t then
                (case regname which' of
                   Inl e \<Rightarrow> Some (Inl e)
                 | Inr s \<Rightarrow> Some (Inr (name @ ''<'' @ s @ ''>'')))
              else Some (Inr name)
          | _ \<Rightarrow> Some (Inr name))
      | Call_t fct params \<Rightarrow>
         bnd (case fct of
                None \<Rightarrow> Some (Inr ''(None)'')
              | Some f \<Rightarrow>
                 (case node (objs h f) of
                    Value_t fv \<Rightarrow>
                      (case fv of
                         None \<Rightarrow> Some (Inl TypeError)
                       | Some a \<Rightarrow>
                           Some (Inr (case names E a of
                                        Some nm \<Rightarrow> nm
                                      | None \<Rightarrow> ''sub_'' @ fmt_x a)))
                  | _ \<Rightarrow> bnd (py_str E n h fct) (\<lambda>s. Some (Inr (''('' @ s @ '')'')))))
           (\<lambda>name.
              bnd (case params of None \<Rightarrow> Some (Inr []) | Some q \<Rightarrow> py_str E n h params)
                (\<lambda>p. Some (Inr (name @ ''('' @ p @ '')''))))
      | Uexpr k a \<Rightarrow>
         bnd (py_str E n h a) (\<lambda>s. Some (Inr (uexpr_str k (plain_operand h a) s)))
      | Bexpr k a b \<Rightarrow>
         bnd (py_str E n h a) (\<lambda>s1.
         bnd (py_str E n h b) (\<lambda>s2. Some (Inr (s1 @ bexpr_sep k @ s2))))
      | Ternary_if_t a b c \<Rightarrow>
         bnd (py_str E n h a) (\<lambda>s1.
         bnd (py_str E n h b) (\<lambda>s2.
         bnd (py_str E n h c) (\<lambda>s3. Some (Inr (s1 @ '' ? '' @ s2 @ '' : '' @ s3))))))"


section \<open>Slots, replacement and construction\<close>

subsection \<open>\<open>expr_t.__setitem__\<close>, \<open>assign_t.__setitem__\<close>\<close>

text \<open>
  The two assertions of \<open>expr_t.__setitem__\<close>, then the parent link, then the list
  store: the link is already installed when the store raises IndexError. Every reference
  of the model denotes an object of this module, all of which are \<open>replaceable_t\<close>, so
  the first assertion holds; the message of the second is built from class names and
  the key, and raises nothing. A result comes with the store it leaves behind, also when
  it is an exception.
\<close>

definition expr_setitem :: "heap \<Rightarrow> ref \<Rightarrow> int \<Rightarrow> ref option \<Rightarrow> (error + unit) \<times> heap" where
  "expr_setitem h self key val =
     (case val of
        None \<Rightarrow>
          (case py_index (length (operands (node (objs h self)))) key of
             None \<Rightarrow> (Inl IndexError, h)
           | Some i \<Rightarrow> (Inr (), set_node h self (store_operand (node (objs h self)) i None)))
      | Some v \<Rightarrow>
          if parent (objs h v) \<noteq> None then (Inl AssertionError, h)
          else
            let h1 = set_parent h v (Some (self, key)) in
            (case py_index (length (operands (node (objs h1 self)))) key of
               None \<Rightarrow> (Inl IndexError, h1)
             | Some i \<Rightarrow>
                 (Inr (), set_node h1 self (store_operand (node (objs h1 self)) i (Some v)))))"

text \<open>
  The assertion of \<open>assign_t.__setitem__\<close> carries the message
  \<open>'... %s (to %s)' % (str(value), str(self))\<close>, which Python builds when the
  assertion fails, before it raises AssertionError. An exception of either \<open>str\<close> is
  the exception that leaves the assignment instead, and a rendering that goes beyond
  the recursion limit \<open>n\<close> is Python's RuntimeError.
\<close>

definition assign_assert_fails :: "env \<Rightarrow> nat \<Rightarrow> heap \<Rightarrow> ref \<Rightarrow> ref option \<Rightarrow> error" where
  "assign_assert_fails E n h self val =
     (case py_str E n h val of
        None \<Rightarrow> RuntimeError
      | Some (Inl e) \<Rightarrow> e
      | Some (Inr s1) \<Rightarrow>
         (case py_str E n h (Some self) of
            None \<Rightarrow> RuntimeError
          | Some (Inl e) \<Rightarrow> e
          | Some (Inr s2) \<Rightarrow> AssertionError))"

definition assign_setitem ::
  "env \<Rightarrow> nat \<Rightarrow> heap \<Rightarrow> ref \<Rightarrow> int \<Rightarrow> ref option \<Rightarrow> (error + unit) \<times> heap" where
  "assign_setitem E n h self key val =
     (if key = 0 then
        (case val of
           None \<Rightarrow> (Inl (assign_assert_fails E n h self val), h)
         | Some v \<Rightarrow>
             if \<not> is_assignable (node (objs h v))
             then (Inl (assign_assert_fails E n h self val), h)
             else expr_setitem (set_is_def h v True) self key val)
      else expr_setitem h self key val)"

text \<open>\<open>type(owner)\<close> is \<open>assign_t\<close>, the one class that overrides \<open>__setitem__\<close>.\<close>

fun is_assign :: "node \<Rightarrow> bool" where
  "is_assign (Bexpr k a b) = (k = assign_t)"
| "is_assign _ = False"

text \<open>\<open>owner[key] = val\<close>: the method the class of \<open>owner\<close> has; a leaf has none.\<close>

definition setitem ::
  "env \<Rightarrow> nat \<Rightarrow> heap \<Rightarrow> ref \<Rightarrow> int \<Rightarrow> ref option \<Rightarrow> (error + unit) \<times> heap" where
  "setitem E n h self key val =
     (let nd = node (objs h self) in
      if is_assign nd then assign_setitem E n h self key val
      else if is_expr nd then expr_setitem h self key val
      else (Inl TypeError, h))"

subsection \<open>\<open>replaceable_t.replace\<close>\<close>

text \<open>
  \<open>new\<close> is any Python value: \<open>None\<close> fails the \<open>isinstance\<close> assertion. The result is
  \<open>None\<close> for a node without parent and the old object (\<open>self\<close>) otherwise.
\<close>

definition replace ::
  "env \<Rightarrow> nat \<Rightarrow> heap \<Rightarrow> ref \<Rightarrow> ref option \<Rightarrow> (error + ref option) \<times> heap" where
  "replace E n h self new =
     (case new of
        None \<Rightarrow> (Inl AssertionError, h)
      | Some v \<Rightarrow>
         (case parent (objs h self) of
            None \<Rightarrow> (Inr None, h)
          | Some (p, k) \<Rightarrow>
             (case getitem h p k of
                Inl e \<Rightarrow> (Inl e, h)
              | Inr old \<Rightarrow>
                  if old \<noteq> Some self then (Inl AssertionError, h)
                  else
                    (case setitem E n h p k new of
                       (Inl e, h1) \<Rightarrow> (Inl e, h1)
                     | (Inr u, h1) \<Rightarrow> (Inr (Some self), set_parent h1 self None)))))"

subsection \<open>Constructors\<close>

text \<open>
  \<open>object.__new__\<close> followed by \<open>replaceable_t.__init__\<close> (\<open>parent = None\<close>) and, for
  the assignable classes, \<open>assignable_t.__init__\<close> (\<open>is_def = False\<close>). A class that is
  not assignable has no \<open>is_def\<close> attribute; its flag is \<open>False\<close> and nothing reads it.
\<close>

definition alloc :: "heap \<Rightarrow> node \<Rightarrow> ref \<times> heap" where
  "alloc h nd =
     (nxt h,
      h\<lparr>objs := (objs h)(nxt h := \<lparr>parent = None, is_def = False, node = nd\<rparr>),
        nxt := Suc (nxt h)\<rparr>)"

definition new_regloc ::
  "heap \<Rightarrow> regcls \<Rightarrow> int \<Rightarrow> string option \<Rightarrow> int option \<Rightarrow> (error + ref) \<times> heap" where
  "new_regloc h c which name index = (let (r, h1) = alloc h (Regloc c which name index) in (Inr r, h1))"

definition new_value :: "heap \<Rightarrow> int option \<Rightarrow> (error + ref) \<times> heap" where
  "new_value h v = (let (r, h1) = alloc h (Value_t v) in (Inr r, h1))"

text \<open>
  \<open>expr_t.__init__\<close>: \<open>self.__operands = [None for i in operands]\<close>, then
  \<open>self[i] = operands[i]\<close> for each \<open>i\<close> of \<open>range(len(operands))\<close>, through the
  \<open>__setitem__\<close> of the class.
\<close>

fun init_slots ::
  "env \<Rightarrow> nat \<Rightarrow> heap \<Rightarrow> ref \<Rightarrow> nat \<Rightarrow> ref option list \<Rightarrow> (error + unit) \<times> heap" where
  "init_slots E n h self i [] = (Inr (), h)"
| "init_slots E n h self i (v # vs) =
     (case setitem E n h self (int i) v of
        (Inl e, h1) \<Rightarrow> (Inl e, h1)
      | (Inr u, h1) \<Rightarrow> init_slots E n h1 self (Suc i) vs)"

definition new_expr ::
  "env \<Rightarrow> nat \<Rightarrow> heap \<Rightarrow> node \<Rightarrow> ref option list \<Rightarrow> (error + ref) \<times> heap" where
  "new_expr E n h blank vs =
     (let (r, h0) = alloc h blank in
      case init_slots E n h0 r 0 vs of
        (Inl e, h1) \<Rightarrow> (Inl e, h1)
      | (Inr u, h1) \<Rightarrow> (Inr r, h1))"

definition new_call ::
  "env \<Rightarrow> nat \<Rightarrow> heap \<Rightarrow> ref option \<Rightarrow> ref option \<Rightarrow> (error + ref) \<times> heap" where
  "new_call E n h fct params = new_expr E n h (Call_t None None) [fct, params]"

definition new_uexpr ::
  "env \<Rightarrow> nat \<Rightarrow> heap \<Rightarrow> ukind \<Rightarrow> ref option \<Rightarrow> (error + ref) \<times> heap" where
  "new_uexpr E n h k op = new_expr E n h (Uexpr k None) [op]"

text \<open>
  \<open>assign_t.__init__\<close> asserts before the base constructor runs, with a constant
  message, and sets \<open>is_def\<close> once more after it.
\<close>

definition new_assign ::
  "env \<Rightarrow> nat \<Rightarrow> heap \<Rightarrow> ref option \<Rightarrow> ref option \<Rightarrow> (error + ref) \<times> heap" where
  "new_assign E n h op1 op2 =
     (case op1 of
        None \<Rightarrow> (Inl AssertionError, h)
      | Some a \<Rightarrow>
          if \<not> is_assignable (node (objs h a)) then (Inl AssertionError, h)
          else
            (case new_expr E n h (Bexpr assign_t None None) [op1, op2] of
               (Inl e, h1) \<Rightarrow> (Inl e, h1)
             | (Inr r, h1) \<Rightarrow> (Inr r, set_is_def h1 a True)))"

definition new_bexpr ::
  "env \<Rightarrow> nat \<Rightarrow> heap \<Rightarrow> bkind \<Rightarrow> ref option \<Rightarrow> ref option \<Rightarrow> (error + ref) \<times> heap" where
  "new_bexpr E n h k op1 op2 =
     (if k = assign_t then new_assign E n h op1 op2
      else new_expr E n h (Bexpr k None None) [op1, op2])"

definition new_ternary_if ::
  "env \<Rightarrow> nat \<Rightarrow> heap \<Rightarrow> ref option \<Rightarrow> ref option \<Rightarrow> ref option \<Rightarrow> (error + ref) \<times> heap" where
  "new_ternary_if E n h c t e = new_expr E n h (Ternary_if_t None None None) [c, t, e]"

subsection \<open>\<open>add_t.add\<close>, \<open>add_t.sub\<close>, \<open>sub_t.add\<close>, \<open>sub_t.sub\<close>\<close>

text \<open>
  \<open>self.op2.value += other.value\<close> (or \<open>-=\<close>): \<open>self.op2\<close> is read, then its \<open>value\<close>
  attribute, which only a \<open>value_t\<close> has; \<open>other\<close> is known to be a \<open>value_t\<close> here.
  A \<open>None\<close> payload on either side makes the arithmetic raise TypeError.
\<close>

definition fold_value ::
  "heap \<Rightarrow> ref \<Rightarrow> (int \<Rightarrow> int \<Rightarrow> int) \<Rightarrow> int option \<Rightarrow> (error + unit) \<times> heap" where
  "fold_value h self f ov =
     (case getitem h self 1 of
        Inl e \<Rightarrow> (Inl e, h)
      | Inr None \<Rightarrow> (Inl AttributeError, h)
      | Inr (Some t) \<Rightarrow>
         (case node (objs h t) of
            Value_t tv \<Rightarrow>
              (case tv of
                 None \<Rightarrow> (Inl TypeError, h)
               | Some a \<Rightarrow>
                  (case ov of
                     None \<Rightarrow> (Inl TypeError, h)
                   | Some b \<Rightarrow> (Inr (), set_node h t (Value_t (Some (f a b))))))
          | _ \<Rightarrow> (Inl AttributeError, h)))"

text \<open>\<open>type(other) == value_t\<close> on any Python value; \<open>None\<close> is not one.\<close>

definition as_value :: "heap \<Rightarrow> ref option \<Rightarrow> int option option" where
  "as_value h other =
     (case other of
        None \<Rightarrow> None
      | Some r \<Rightarrow> (case node (objs h r) of Value_t v \<Rightarrow> Some v | _ \<Rightarrow> None))"

definition add_t_add :: "heap \<Rightarrow> ref \<Rightarrow> ref option \<Rightarrow> (error + unit) \<times> heap" where
  "add_t_add h self other =
     (case as_value h other of
        Some ov \<Rightarrow> fold_value h self (\<lambda>a b. a + b) ov
      | None \<Rightarrow> (Inl RuntimeError, h))"

definition add_t_sub :: "heap \<Rightarrow> ref \<Rightarrow> ref option \<Rightarrow> (error + unit) \<times> heap" where
  "add_t_sub h self other =
     (case as_value h other of
        Some ov \<Rightarrow> fold_value h self (\<lambda>a b. a - b) ov
      | None \<Rightarrow> (Inl RuntimeError, h))"

definition sub_t_add :: "heap \<Rightarrow> ref \<Rightarrow> ref option \<Rightarrow> (error + unit) \<times> heap" where
  "sub_t_add h self other =
     (case as_value h other of
        Some ov \<Rightarrow> fold_value h self (\<lambda>a b. a - b) ov
      | None \<Rightarrow> (Inl RuntimeError, h))"

definition sub_t_sub :: "heap \<Rightarrow> ref \<Rightarrow> ref option \<Rightarrow> (error + unit) \<times> heap" where
  "sub_t_sub h self other =
     (case as_value h other of
        Some ov \<Rightarrow> fold_value h self (\<lambda>a b. a + b) ov
      | None \<Rightarrow> (Inl RuntimeError, h))"

text \<open>\<open>x.add(other)\<close> and \<open>x.sub(other)\<close>: only \<open>add_t\<close> and \<open>sub_t\<close> have the methods.\<close>

definition py_add :: "heap \<Rightarrow> ref \<Rightarrow> ref option \<Rightarrow> (error + unit) \<times> heap" where
  "py_add h self other =
     (case node (objs h self) of
        Bexpr k a b \<Rightarrow>
          if k = add_t then add_t_add h self other
          else if k = sub_t then sub_t_add h self other
          else (Inl AttributeError, h)
      | _ \<Rightarrow> (Inl AttributeError, h))"

definition py_sub :: "heap \<Rightarrow> ref \<Rightarrow> ref option \<Rightarrow> (error + unit) \<times> heap" where
  "py_sub h self other =
     (case node (objs h self) of
        Bexpr k a b \<Rightarrow>
          if k = add_t then add_t_sub h self other
          else if k = sub_t then sub_t_sub h self other
          else (Inl AttributeError, h)
      | _ \<Rightarrow> (Inl AttributeError, h))"


section \<open>Equality, copy and traversal\<close>

subsection \<open>\<open>__eq__\<close>\<close>

text \<open>
  The \<open>operator\<close> attribute: each subclass passes a constant to \<open>uexpr_t.__init__\<close> or
  \<open>bexpr_t.__init__\<close>, and nothing assigns it afterwards.
\<close>

fun uexpr_operator :: "ukind \<Rightarrow> string" where
  "uexpr_operator not_t = ''~''"
| "uexpr_operator b_not_t = ''!''"
| "uexpr_operator deref_t = ''*''"
| "uexpr_operator address_t = ''&''"
| "uexpr_operator neg_t = ''-''"
| "uexpr_operator preinc_t = ''++''"
| "uexpr_operator predec_t = ''--''"
| "uexpr_operator postinc_t = ''++''"
| "uexpr_operator postdec_t = ''--''"
| "uexpr_operator sign_t = ''<sign>''"
| "uexpr_operator overflow_t = ''<overflow>''"
| "uexpr_operator parity_t = ''<parity>''"
| "uexpr_operator adjust_t = ''<adjust>''"
| "uexpr_operator carry_t = ''<carry>''"

fun bexpr_operator :: "bkind \<Rightarrow> string" where
  "bexpr_operator comma_t = '',''"
| "bexpr_operator assign_t = ''=''"
| "bexpr_operator add_t = ''+''"
| "bexpr_operator sub_t = ''-''"
| "bexpr_operator mul_t = ''*''"
| "bexpr_operator div_t = ''/''"
| "bexpr_operator shl_t = ''<<''"
| "bexpr_operator shr_t = ''>>''"
| "bexpr_operator xor_t = ''^''"
| "bexpr_operator and_t = ''&''"
| "bexpr_operator or_t = ''|''"
| "bexpr_operator b_and_t = ''&&''"
| "bexpr_operator b_or_t = ''||''"
| "bexpr_operator eq_t = ''==''"
| "bexpr_operator neq_t = ''!=''"
| "bexpr_operator leq_t = ''<=''"
| "bexpr_operator aeq_t = ''>=''"
| "bexpr_operator lower_t = ''<''"
| "bexpr_operator above_t = ''>''"

text \<open>
  \<open>a == b\<close> for \<open>a\<close>, \<open>b\<close> nodes or \<open>None\<close>. Python calls the \<open>__eq__\<close> of the class of
  \<open>a\<close>. \<open>None\<close> and \<open>call_t\<close> have none: Python then asks the \<open>__eq__\<close> of \<open>b\<close>, and
  every \<open>__eq__\<close> of the module answers \<open>False\<close> to an object that is not of its own
  family; when \<open>b\<close> has none either, the comparison is identity. The \<open>and\<close> chains stop
  at the first \<open>False\<close>.
\<close>

fun py_eq :: "nat \<Rightarrow> heap \<Rightarrow> ref option \<Rightarrow> ref option \<Rightarrow> bool option" where
  "py_eq 0 h a b = None"
| "py_eq (Suc n) h None None = Some True"
| "py_eq (Suc n) h None (Some rb) = Some False"
| "py_eq (Suc n) h (Some ra) None = Some False"
| "py_eq (Suc n) h (Some ra) (Some rb) =
     (case node (objs h ra) of
        Regloc c which name index \<Rightarrow>
         (case node (objs h rb) of
            Regloc c' which' name' index' \<Rightarrow> Some (c' = c \<and> which = which' \<and> index = index')
          | _ \<Rightarrow> Some False)
      | Value_t v \<Rightarrow>
         (case node (objs h rb) of
            Value_t v' \<Rightarrow> Some (v = v')
          | _ \<Rightarrow> Some False)
      | Var_t w name \<Rightarrow>
         (case node (objs h rb) of
            Var_t w' name' \<Rightarrow> py_eq n h (Some w) (Some w')
          | _ \<Rightarrow> Some False)
      | Arg_t w name \<Rightarrow>
         (case node (objs h rb) of
            Arg_t w' name' \<Rightarrow> py_eq n h (Some w) (Some w')
          | _ \<Rightarrow> Some False)
      | Call_t fct params \<Rightarrow>
         (case node (objs h rb) of
            Call_t fct' params' \<Rightarrow> Some (ra = rb)
          | _ \<Rightarrow> Some False)
      | Uexpr k x \<Rightarrow>
         (case node (objs h rb) of
            Uexpr k' y \<Rightarrow>
              if uexpr_operator k = uexpr_operator k' then py_eq n h x y else Some False
          | _ \<Rightarrow> Some False)
      | Bexpr k x1 x2 \<Rightarrow>
         (case node (objs h rb) of
            Bexpr k' y1 y2 \<Rightarrow>
              if bexpr_operator k = bexpr_operator k' then
                (case py_eq n h x1 y1 of
                   None \<Rightarrow> None
                 | Some e1 \<Rightarrow> if e1 then py_eq n h x2 y2 else Some False)
              else Some False
          | _ \<Rightarrow> Some False)
      | Ternary_if_t x1 x2 x3 \<Rightarrow>
         (case node (objs h rb) of
            Ternary_if_t y1 y2 y3 \<Rightarrow>
              (case py_eq n h x1 y1 of
                 None \<Rightarrow> None
               | Some e1 \<Rightarrow>
                   if e1 then
                     (case py_eq n h x2 y2 of
                        None \<Rightarrow> None
                      | Some e2 \<Rightarrow> if e2 then py_eq n h x3 y3 else Some False)
                   else Some False)
          | _ \<Rightarrow> Some False))"

subsection \<open>Truth value\<close>

text \<open>
  \<open>if not o\<close>, \<open>if self.params\<close>: \<open>None\<close> is false; an \<open>expr_t\<close> has \<open>__len__\<close> and is
  false when it has no slot; the leaf classes define neither \<open>__len__\<close> nor
  \<open>__nonzero__\<close> and are true.
\<close>

definition truthy :: "heap \<Rightarrow> ref option \<Rightarrow> bool" where
  "truthy h v =
     (case v of
        None \<Rightarrow> False
      | Some r \<Rightarrow>
          (let nd = node (objs h r) in
           if is_expr nd then length (operands nd) \<noteq> 0 else True))"

subsection \<open>\<open>var_t\<close>, \<open>arg_t\<close> and \<open>copy\<close>\<close>

text \<open>\<open>self.name = name or str(self.where)\<close>: the given name unless it is \<open>None\<close> or empty.\<close>

definition new_named ::
  "env \<Rightarrow> nat \<Rightarrow> heap \<Rightarrow> (ref \<Rightarrow> string \<Rightarrow> node) \<Rightarrow> ref \<Rightarrow> string option
     \<Rightarrow> ((error + ref) \<times> heap) option" where
  "new_named E n h mk w name =
     (case (case (case name of
                    None \<Rightarrow> None
                  | Some s \<Rightarrow> if s \<noteq> [] then Some s else None) of
              Some s \<Rightarrow> Some (Inr s)
            | None \<Rightarrow> py_str E n h (Some w)) of
        None \<Rightarrow> None
      | Some (Inl e) \<Rightarrow> Some (Inl e, h)
      | Some (Inr s) \<Rightarrow> (let (r, h1) = alloc h (mk w s) in Some (Inr r, h1)))"

definition new_var ::
  "env \<Rightarrow> nat \<Rightarrow> heap \<Rightarrow> ref \<Rightarrow> string option \<Rightarrow> ((error + ref) \<times> heap) option" where
  "new_var E n h w name = new_named E n h Var_t w name"

definition new_arg ::
  "env \<Rightarrow> nat \<Rightarrow> heap \<Rightarrow> ref \<Rightarrow> string option \<Rightarrow> ((error + ref) \<times> heap) option" where
  "new_arg E n h w name = new_named E n h Arg_t w name"

text \<open>
  \<open>x.copy()\<close> for \<open>x\<close> a node or \<open>None\<close>. \<open>None\<close> has no \<open>copy\<close>, and neither has
  \<open>ternary_if_t\<close>: \<open>texpr_t\<close> and \<open>expr_t\<close> do not define it. The arguments of a
  constructor are evaluated left to right, before the constructor runs.
\<close>

definition cbnd ::
  "((error + 'a) \<times> heap) option \<Rightarrow> ('a \<Rightarrow> heap \<Rightarrow> ((error + 'b) \<times> heap) option)
     \<Rightarrow> ((error + 'b) \<times> heap) option" where
  "cbnd m f =
     (case m of
        None \<Rightarrow> None
      | Some (Inl e, h1) \<Rightarrow> Some (Inl e, h1)
      | Some (Inr x, h1) \<Rightarrow> f x h1)"

fun copy :: "env \<Rightarrow> nat \<Rightarrow> heap \<Rightarrow> ref option \<Rightarrow> ((error + ref) \<times> heap) option" where
  "copy E 0 h v = None"
| "copy E (Suc n) h None = Some (Inl AttributeError, h)"
| "copy E (Suc n) h (Some r) =
     (case node (objs h r) of
        Regloc c which name index \<Rightarrow> Some (new_regloc h c which name index)
      | Value_t v \<Rightarrow> Some (new_value h v)
      | Var_t w name \<Rightarrow>
          cbnd (copy E n h (Some w)) (\<lambda>w' h1. new_var E n h1 w' (Some name))
      | Arg_t w name \<Rightarrow>
          cbnd (copy E n h (Some w)) (\<lambda>w' h1. new_arg E n h1 w' (Some name))
      | Call_t fct params \<Rightarrow>
          cbnd (copy E n h fct) (\<lambda>f' h1.
          cbnd (if truthy h1 params then
                  cbnd (copy E n h1 params) (\<lambda>p' h2. Some (Inr (Some p'), h2))
                else Some (Inr None, h1))
            (\<lambda>p' h2. Some (new_call E n h2 (Some f') p')))
      | Uexpr k a \<Rightarrow>
          cbnd (copy E n h a) (\<lambda>a' h1. Some (new_uexpr E n h1 k (Some a')))
      | Bexpr k a b \<Rightarrow>
          cbnd (copy E n h a) (\<lambda>a' h1.
          cbnd (copy E n h1 b) (\<lambda>b' h2. Some (new_bexpr E n h2 k (Some a') (Some b'))))
      | Ternary_if_t a b c \<Rightarrow> Some (Inl AttributeError, h))"

subsection \<open>\<open>iteroperands\<close>\<close>

text \<open>
  The generator of a leaf yields the leaf. The generator of an \<open>expr_t\<close> runs through
  its slots in order, skips a slot whose content is false, yields all that the
  generator of the operand yields, and yields the node itself last. The model is the
  list of the objects yielded.
\<close>

fun iter_slots :: "(ref \<Rightarrow> ref list option) \<Rightarrow> heap \<Rightarrow> ref option list \<Rightarrow> ref list option" where
  "iter_slots f h [] = Some []"
| "iter_slots f h (v # vs) =
     (if \<not> truthy h v then iter_slots f h vs
      else
        (case v of
           None \<Rightarrow> iter_slots f h vs
         | Some c \<Rightarrow>
            (case f c of
               None \<Rightarrow> None
             | Some ys \<Rightarrow>
                (case iter_slots f h vs of
                   None \<Rightarrow> None
                 | Some zs \<Rightarrow> Some (ys @ zs)))))"

fun iteroperands :: "nat \<Rightarrow> heap \<Rightarrow> ref \<Rightarrow> ref list option" where
  "iteroperands 0 h r = None"
| "iteroperands (Suc n) h r =
     (let nd = node (objs h r) in
      if is_expr nd then
        (case iter_slots (iteroperands n h) h (operands nd) of
           None \<Rightarrow> None
         | Some xs \<Rightarrow> Some (xs @ [r]))
      else Some [r])"


section \<open>Stores built by the constructors\<close>

text \<open>
  The empty store, and the scenarios the properties below are run on. Each is built by
  the constructors above, in the order the Python expressions evaluate, so the
  references are the allocation order: the first object built is 0. The scenarios run
  with ten nested calls allowed, more than any of them makes.
\<close>

definition heap0 :: heap where
  "heap0 = \<lparr>objs = (\<lambda>r. \<lparr>parent = None, is_def = False, node = Value_t None\<rparr>), nxt = 0\<rparr>"

text \<open>An IDA database that knows no string and no name.\<close>

definition env0 :: env where
  "env0 = \<lparr>get_string = (\<lambda>a. None), names = (\<lambda>a. None), py_repr = (\<lambda>s. s)\<rparr>"

text \<open>\<open>e = add_t(value_t(1), value_t(2)); v = value_t(3)\<close>: \<open>e\<close> is 2, \<open>v\<close> is 3.\<close>

definition scene_add :: heap where
  "scene_add =
     snd (new_value (snd (new_bexpr env0 10 (snd (new_value (snd (new_value heap0 (Some 1))) (Some 2)))
        add_t (Some 0) (Some 1))) (Some 3))"

text \<open>\<open>e = sub_t(value_t(1), value_t(2)); v = value_t(3)\<close>.\<close>

definition scene_sub :: heap where
  "scene_sub =
     snd (new_value (snd (new_bexpr env0 10 (snd (new_value (snd (new_value heap0 (Some 1))) (Some 2)))
        sub_t (Some 0) (Some 1))) (Some 3))"

text \<open>
  \<open>a = preinc_t(regloc_t(0)); b = postinc_t(regloc_t(0))\<close>: the registers are 0 and 2,
  \<open>a\<close> is 1 and \<open>b\<close> is 3.
\<close>

definition scene_inc :: heap where
  "scene_inc =
     snd (new_uexpr env0 10 (snd (new_regloc (snd (new_uexpr env0 10 (snd (new_regloc heap0 regloc_t 0 None None))
        preinc_t (Some 0))) regloc_t 0 None None)) postinc_t (Some 2))"

text \<open>
  \<open>u = not_t(regloc_t(1)); f = postdec_t(flagloc_t(1))\<close>: the register is 0, \<open>u\<close> is 1,
  the flag is 2 and \<open>f\<close> is 3.
\<close>

definition scene_unary :: heap where
  "scene_unary =
     snd (new_uexpr env0 10 (snd (new_regloc (snd (new_uexpr env0 10 (snd (new_regloc heap0 regloc_t 1 None None))
        not_t (Some 0))) flagloc_t 1 None None)) postdec_t (Some 2))"

text \<open>\<open>t = ternary_if_t(value_t(1), value_t(2), value_t(3))\<close>: \<open>t\<close> is 3.\<close>

definition scene_ternary :: heap where
  "scene_ternary =
     snd (new_ternary_if env0 10 (snd (new_value (snd (new_value (snd (new_value heap0 (Some 1)))
        (Some 2))) (Some 3))) (Some 0) (Some 1) (Some 2))"

text \<open>\<open>c = call_t(value_t(4096), None)\<close>: \<open>c\<close> is 1.\<close>

definition scene_call :: heap where
  "scene_call = snd (new_call env0 10 (snd (new_value heap0 (Some 4096))) (Some 0) None)"

text \<open>
  \<open>c = call_t(value_t(4096), None); r = regloc_t(0); d = deref_t(r)\<close>: \<open>c\<close> is 1 and
  its second slot is empty, \<open>r\<close> is 2 and belongs to \<open>d\<close>, which is 3.
\<close>

definition scene_attach :: heap where
  "scene_attach =
     snd (new_uexpr env0 10 (snd (new_regloc scene_call regloc_t 0 None None)) deref_t (Some 2))"

text \<open>
  \<open>loc = regloc_t(0); e = add_t(value_t(1), loc); v = value_t(8)\<close>, the example of the
  docstring of \<open>replaceable_t\<close>: \<open>loc\<close> is 0, the literal 1 is 1, \<open>e\<close> is 2, \<open>v\<close> is 3.
\<close>

definition scene_reg :: heap where
  "scene_reg =
     snd (new_value (snd (new_bexpr env0 10 (snd (new_value (snd (new_regloc heap0 regloc_t 0 None None))
        (Some 1))) add_t (Some 1) (Some 0))) (Some 8))"

text \<open>
  \<open>a = assign_t(regloc_t(0), value_t(1)); v = value_t(5); r = regloc_t(1)\<close>: the target
  is 0, the literal 1 is 1, \<open>a\<close> is 2, \<open>v\<close> is 3 and \<open>r\<close> is 4.
\<close>

definition scene_assign :: heap where
  "scene_assign =
     snd (new_regloc (snd (new_value (snd (new_bexpr env0 10 (snd (new_value
        (snd (new_regloc heap0 regloc_t 0 None None)) (Some 1))) assign_t (Some 0) (Some 1)))
        (Some 5))) regloc_t 1 None None)"

text \<open>
  \<open>loc = regloc_t(0); e = add_t(value_t(1), loc); v = value_t(8); e[1] = v;
  w = value_t(9)\<close>: the scenario of the docstring with the slot of \<open>loc\<close> overwritten
  by assignment; \<open>w\<close> is 4.
\<close>

definition scene_stale :: heap where
  "scene_stale = snd (new_value (snd (setitem env0 10 scene_reg 2 1 (Some 3))) (Some 9))"

text \<open>
  \<open>a = assign_t(regloc_t(0), value_t(1)); v = value_t(5); r = regloc_t(1);
  c = call_t(value_t(None), None)\<close>: \<open>c\<close> is 6, its callee 5 a literal without
  payload.
\<close>

definition scene_badcall :: heap where
  "scene_badcall = snd (new_call env0 10 (snd (new_value scene_assign None)) (Some 5) None)"

section \<open>Reading digits back\<close>

text \<open>
  The number a string of digits denotes in a base, to say what \<open>%u\<close> and \<open>%x\<close> print:
  the position of each digit in \<open>0123456789abcdef\<close>, most significant first.
\<close>

definition digit_value :: "char \<Rightarrow> nat" where
  "digit_value c = length (takeWhile (\<lambda>d. d \<noteq> c) ''0123456789abcdef'')"

definition digits_value :: "nat \<Rightarrow> string \<Rightarrow> nat" where
  "digits_value base s = foldl (\<lambda>a c. base * a + digit_value c) 0 s"

section \<open>The operand kinds of the rendering contract\<close>

text \<open>
  The operand kinds the rendering contract names as parenthesized: a condition flag, a
  literal and every composite.
\<close>

fun parenthesized_kind :: "node \<Rightarrow> bool" where
  "parenthesized_kind (Regloc c w n i) = (c = flagloc_t)"
| "parenthesized_kind (Value_t v) = True"
| "parenthesized_kind (Call_t f p) = True"
| "parenthesized_kind (Uexpr k a) = True"
| "parenthesized_kind (Bexpr k a b) = True"
| "parenthesized_kind (Ternary_if_t a b c) = True"
| "parenthesized_kind _ = False"

section \<open>The parent link and the slot\<close>

text \<open>
  Invariant 2 of the data model at one node: when the parent link of \<open>x\<close> is
  \<open>(owner, k)\<close>, slot \<open>k\<close> of \<open>owner\<close> holds \<open>x\<close>.
\<close>

definition linked :: "heap \<Rightarrow> ref \<Rightarrow> bool" where
  "linked h x =
     (case parent (objs h x) of
        None \<Rightarrow> True
      | Some (p, k) \<Rightarrow> getitem h p k = Inr (Some x))"

section \<open>The subtree of a node\<close>

text \<open>
  \<open>c\<close> is an operand of \<open>e\<close> when a slot of \<open>e\<close> holds it; the subtree of \<open>r\<close> is \<open>r\<close>
  and everything reached from it through operands; an empty slot leads nowhere.
\<close>

definition child :: "heap \<Rightarrow> ref \<Rightarrow> ref \<Rightarrow> bool" where
  "child h e c \<longleftrightarrow> Some c \<in> set (operands (node (objs h e)))"

inductive_set subtree :: "heap \<Rightarrow> ref \<Rightarrow> ref set" for h :: heap and r :: ref where
  root: "r \<in> subtree h r"
| step: "e \<in> subtree h r \<Longrightarrow> child h e c \<Longrightarrow> c \<in> subtree h r"

text \<open>
  The subtree of \<open>r\<close> is a tree: below \<open>r\<close> no operand chain comes back (every operand
  has a smaller rank than its owner), and no node sits in two slots (invariant 1 of the
  data model). The slots are counted from 0, left to right.
\<close>

definition tree_below :: "heap \<Rightarrow> (ref \<Rightarrow> nat) \<Rightarrow> ref \<Rightarrow> bool" where
  "tree_below h rank r \<longleftrightarrow>
     (\<forall>e \<in> subtree h r. \<forall>c. child h e c \<longrightarrow> rank c < rank e)
     \<and> (\<forall>e \<in> subtree h r. \<forall>e' \<in> subtree h r. \<forall>k k' c.
          getitem h e (int k) = Inr (Some c) \<and> getitem h e' (int k') = Inr (Some c)
          \<longrightarrow> e = e' \<and> k = k')"

text \<open>\<open>a\<close> is enumerated before \<open>b\<close>: \<open>b\<close> occurs after the first occurrence of \<open>a\<close>.\<close>

definition before :: "ref list \<Rightarrow> ref \<Rightarrow> ref \<Rightarrow> bool" where
  "before xs a b \<longleftrightarrow> b \<in> set (tl (dropWhile (\<lambda>x. x \<noteq> a) xs))"

text \<open>The operands of a slot list, in slot order.\<close>

fun kids :: "ref option list \<Rightarrow> ref list" where
  "kids [] = []"
| "kids (None # vs) = kids vs"
| "kids (Some c # vs) = c # kids vs"


section \<open>Nodes that \<open>copy\<close> clones\<close>

text \<open>
  The nodes on which \<open>copy\<close> returns within \<open>n\<close> nested calls: objects of the store,
  of a class that has the method, with every operand it copies of that kind. The callee
  of a call, the operand of a unary operator and both operands of a binary operator are
  copied, so they are nodes; the parameters of a call are copied when there are any; a
  variable or an argument has a name, so that its constructor does not render its
  location; and the left side of an assignment is assignable, as the constructor of
  the copy asserts.
\<close>

fun clonable :: "nat \<Rightarrow> heap \<Rightarrow> ref option \<Rightarrow> bool" where
  "clonable 0 h v = False"
| "clonable (Suc n) h None = False"
| "clonable (Suc n) h (Some r) =
     (r < nxt h \<and>
      (case node (objs h r) of
         Regloc c which name index \<Rightarrow> True
       | Value_t v \<Rightarrow> True
       | Var_t w name \<Rightarrow> name \<noteq> [] \<and> clonable n h (Some w)
       | Arg_t w name \<Rightarrow> name \<noteq> [] \<and> clonable n h (Some w)
       | Call_t fct params \<Rightarrow> clonable n h fct \<and> (params = None \<or> clonable n h params)
       | Uexpr k a \<Rightarrow> clonable n h a
       | Bexpr k a b \<Rightarrow>
           clonable n h a \<and> clonable n h b
           \<and> (k = assign_t \<longrightarrow>
                (case a of None \<Rightarrow> False | Some x \<Rightarrow> is_assignable (node (objs h x))))
       | Ternary_if_t a b c \<Rightarrow> False))"

section \<open>Properties\<close>

subsection \<open>Reading a store after an update\<close>

lemma node_set_parent [simp]: "node (objs (set_parent h r p) x) = node (objs h x)"
  and is_def_set_parent [simp]: "is_def (objs (set_parent h r p) x) = is_def (objs h x)"
  and parent_set_parent [simp]:
    "parent (objs (set_parent h r p) x) = (if x = r then p else parent (objs h x))"
  and nxt_set_parent [simp]: "nxt (set_parent h r p) = nxt h"
  by (simp_all add: set_parent_def)

lemma node_set_is_def [simp]: "node (objs (set_is_def h r b) x) = node (objs h x)"
  and parent_set_is_def [simp]: "parent (objs (set_is_def h r b) x) = parent (objs h x)"
  and is_def_set_is_def [simp]:
    "is_def (objs (set_is_def h r b) x) = (if x = r then b else is_def (objs h x))"
  and nxt_set_is_def [simp]: "nxt (set_is_def h r b) = nxt h"
  by (simp_all add: set_is_def_def)

lemma parent_set_node [simp]: "parent (objs (set_node h r nd) x) = parent (objs h x)"
  and is_def_set_node [simp]: "is_def (objs (set_node h r nd) x) = is_def (objs h x)"
  and node_set_node [simp]:
    "node (objs (set_node h r nd) x) = (if x = r then nd else node (objs h x))"
  and nxt_set_node [simp]: "nxt (set_node h r nd) = nxt h"
  by (simp_all add: set_node_def)

lemma length_store_operand [simp]:
  "length (operands (store_operand nd k v)) = length (operands nd)"
  by (cases nd) simp_all

lemma is_expr_store_operand [simp]: "is_expr (store_operand nd k v) = is_expr nd"
  by (cases nd) simp_all

lemma is_assign_store_operand [simp]: "is_assign (store_operand nd k v) = is_assign nd"
  by (cases nd) simp_all

lemma nth_store_operand:
  "k < length (operands nd) \<Longrightarrow> j < length (operands nd) \<Longrightarrow>
   operands (store_operand nd k v) ! j = (if j = k then v else operands nd ! j)"
  by (cases nd) (auto simp: less_Suc_eq)

lemma is_expr_iff_slots: "is_expr nd \<longleftrightarrow> operands nd \<noteq> []"
  by (cases nd) simp_all

lemma is_assign_is_expr: "is_assign nd \<Longrightarrow> is_expr nd"
  by (cases nd) simp_all

lemma py_index_less: "py_index len k = Some i \<Longrightarrow> i < len"
  by (auto simp: py_index_def split: if_splits)

lemma py_index_int [simp]: "py_index len (int i) = (if i < len then Some i else None)"
  by (simp add: py_index_def)

lemma py_index_0 [simp]: "py_index len 0 = (if 0 < len then Some 0 else None)"
  using py_index_int [of len 0] by simp

lemma py_index_1 [simp]: "py_index len 1 = (if 1 < len then Some 1 else None)"
  using py_index_int [of len 1] by simp

lemma py_index_numeral [simp]:
  "py_index len (numeral k) = (if numeral k < len then Some (numeral k) else None)"
  using py_index_int [of len "numeral k"] by simp

lemma py_index_neg_numeral [simp]:
  "py_index len (- numeral k) = (if numeral k \<le> len then Some (len - numeral k) else None)"
  by (auto simp: py_index_def nat_diff_distrib')

lemma py_index_leaf [simp]: "py_index 0 k = None"
  by (simp add: py_index_def)

lemma getitem_Inr_iff:
  "getitem h p k = Inr x \<longleftrightarrow>
   (\<exists>i. py_index (length (operands (node (objs h p)))) k = Some i
        \<and> operands (node (objs h p)) ! i = x)"
  by (cases "is_expr (node (objs h p))")
     (auto simp: getitem_def Let_def is_expr_iff_slots split: option.splits)

lemma getitem_slot:
  "py_index (length (operands (node (objs h p)))) k = Some i \<Longrightarrow>
   getitem h p k = Inr (operands (node (objs h p)) ! i)"
  by (simp add: getitem_Inr_iff)

lemma getitem_nat:
  "getitem h p (int i) = Inr x \<longleftrightarrow>
   i < length (operands (node (objs h p))) \<and> operands (node (objs h p)) ! i = x"
  by (simp add: getitem_Inr_iff)

text \<open>Unfolding the constructors on a concrete store.\<close>

lemmas build_defs =
  new_value_def new_regloc_def new_bexpr_def new_uexpr_def new_call_def new_ternary_if_def
  new_assign_def new_expr_def alloc_def setitem_def assign_setitem_def expr_setitem_def
  py_index_def set_parent_def set_node_def set_is_def_def heap0_def Let_def

subsection \<open>Folding a literal into an addition or a subtraction\<close>

text \<open>
  C6. Let \<open>e\<close> be an \<open>add_t\<close> or \<open>sub_t\<close> node whose second operand \<open>t\<close> is a literal with
  the integer \<open>x\<close>, and \<open>v\<close> a literal with the integer \<open>y\<close>. On an \<open>add_t\<close>,
  \<open>e.add(v)\<close> leaves \<open>x + y\<close> in \<open>t\<close> and \<open>e.sub(v)\<close> leaves \<open>x - y\<close>; on a \<open>sub_t\<close> the
  signs are opposite: \<open>e.add(v)\<close> leaves \<open>x - y\<close> and \<open>e.sub(v)\<close> leaves \<open>x + y\<close>. Both
  calls return normally and change nothing but the payload of \<open>t\<close>.
\<close>

theorem fold_add_sub_signs:
  assumes "node (objs h e) = Bexpr k a (Some t)" and "k = add_t \<or> k = sub_t"
    and "node (objs h t) = Value_t (Some x)" and "node (objs h v) = Value_t (Some y)"
  shows "py_add h e (Some v) =
           (Inr (), set_node h t (Value_t (Some (if k = add_t then x + y else x - y))))
       \<and> py_sub h e (Some v) =
           (Inr (), set_node h t (Value_t (Some (if k = add_t then x - y else x + y))))"
  using assms
  by (auto simp: py_add_def py_sub_def add_t_add_def add_t_sub_def sub_t_add_def sub_t_sub_def
      as_value_def fold_value_def getitem_def py_index_def)

text \<open>
  The scenario of the specification: \<open>add(1, 2)\<close> with 3 folded in by \<open>add\<close> holds 5,
  and \<open>sub(1, 2)\<close> with 3 folded in by \<open>add\<close> holds -1.
\<close>

theorem fold_add_sub_signs_witness:
  "node (objs scene_add 2) = Bexpr add_t (Some 0) (Some 1)
   \<and> node (objs scene_add 1) = Value_t (Some 2) \<and> node (objs scene_add 3) = Value_t (Some 3)
   \<and> fst (py_add scene_add 2 (Some 3)) = Inr ()
   \<and> node (objs (snd (py_add scene_add 2 (Some 3))) 1) = Value_t (Some 5)
   \<and> node (objs scene_sub 2) = Bexpr sub_t (Some 0) (Some 1)
   \<and> node (objs scene_sub 1) = Value_t (Some 2) \<and> node (objs scene_sub 3) = Value_t (Some 3)
   \<and> fst (py_add scene_sub 2 (Some 3)) = Inr ()
   \<and> node (objs (snd (py_add scene_sub 2 (Some 3))) 1) = Value_t (Some (- 1))"
proof -
  have a: "node (objs scene_add 2) = Bexpr add_t (Some 0) (Some 1)"
    "node (objs scene_add 1) = Value_t (Some 2)" "node (objs scene_add 3) = Value_t (Some 3)"
    by (simp_all add: scene_add_def build_defs)
  have s: "node (objs scene_sub 2) = Bexpr sub_t (Some 0) (Some 1)"
    "node (objs scene_sub 1) = Value_t (Some 2)" "node (objs scene_sub 3) = Value_t (Some 3)"
    by (simp_all add: scene_sub_def build_defs)
  have "add_t = add_t \<or> add_t = sub_t" "sub_t = add_t \<or> sub_t = sub_t"
    by simp_all
  then show ?thesis
    using a s fold_add_sub_signs [OF a(1) _ a(2) a(3)] fold_add_sub_signs [OF s(1) _ s(2) s(3)]
    by simp
qed

subsection \<open>Pre- and post-increment compare equal\<close>

text \<open>
  C10. \<open>uexpr_t.__eq__\<close> compares the operator string and the operand, and \<open>preinc_t\<close>
  and \<open>postinc_t\<close> both carry \<open>++\<close>, \<open>predec_t\<close> and \<open>postdec_t\<close> both \<open>--\<close>. So when
  \<open>x == y\<close> is true, a pre-increment of \<open>x\<close> equals a post-increment of \<open>y\<close>, and a
  pre-decrement of \<open>x\<close> equals a post-decrement of \<open>y\<close>; the comparison nests one call
  deeper than that of the operands.
\<close>

theorem pre_post_compare_equal:
  assumes "node (objs h p) = Uexpr k x" and "node (objs h q) = Uexpr k' y"
    and "k = preinc_t \<and> k' = postinc_t \<or> k = predec_t \<and> k' = postdec_t"
    and "py_eq n h x y = Some True"
  shows "py_eq (Suc n) h (Some p) (Some q) = Some True"
  using assms by auto

theorem pre_post_compare_equal_witness:
  "node (objs scene_inc 1) = Uexpr preinc_t (Some 0)
   \<and> node (objs scene_inc 3) = Uexpr postinc_t (Some 2)
   \<and> py_eq 1 scene_inc (Some 0) (Some 2) = Some True
   \<and> py_eq 2 scene_inc (Some 1) (Some 3) = Some True"
proof -
  have n: "node (objs scene_inc 1) = Uexpr preinc_t (Some 0)"
    "node (objs scene_inc 3) = Uexpr postinc_t (Some 2)"
    by (simp_all add: scene_inc_def build_defs)
  have r: "node (objs scene_inc 0) = Regloc regloc_t 0 None None"
    "node (objs scene_inc 2) = Regloc regloc_t 0 None None"
    by (simp_all add: scene_inc_def build_defs)
  have e: "py_eq (Suc 0) scene_inc (Some 0) (Some 2) = Some True"
    by (simp add: r)
  have "py_eq (Suc (Suc 0)) scene_inc (Some 1) (Some 3) = Some True"
    using pre_post_compare_equal [OF n(1) n(2) _ e] by simp
  then show ?thesis using n e by (simp add: numeral_2_eq_2)
qed

subsection \<open>Rendering a literal\<close>

declare hex_digits.simps [simp del] dec_digits.simps [simp del]

lemma digit_value_table: "list_all (\<lambda>d. digit_value (digit_char d) = d) [0..<16]"
  by code_simp

lemma digit_value_digit_char: "d < 16 \<Longrightarrow> digit_value (digit_char d) = d"
  using digit_value_table by (simp add: list_all_iff)

lemma digits_value_snoc: "digits_value b (s @ [c]) = b * digits_value b s + digit_value c"
  by (simp add: digits_value_def)

lemma hex_digits_value: "digits_value 16 (hex_digits m) = m"
proof (induction m rule: hex_digits.induct)
  case (1 n)
  show ?case
  proof (cases "n < 16")
    case True
    then show ?thesis
      by (subst hex_digits.simps) (simp add: digits_value_def digit_value_digit_char)
  next
    case False
    then show ?thesis
      using 1 by (subst hex_digits.simps) (simp add: digits_value_snoc digit_value_digit_char)
  qed
qed

lemma dec_digits_value: "digits_value 10 (dec_digits m) = m"
proof (induction m rule: dec_digits.induct)
  case (1 n)
  show ?case
  proof (cases "n < 10")
    case True
    then show ?thesis
      by (subst dec_digits.simps) (simp add: digits_value_def digit_value_digit_char)
  next
    case False
    then show ?thesis
      using 1 by (subst dec_digits.simps) (simp add: digits_value_snoc digit_value_digit_char)
  qed
qed

text \<open>\<open>%x\<close> pads nothing: the number of digits is the least that holds the value.\<close>

lemma hex_digits_width:
  "0 < m \<Longrightarrow> 16 ^ (length (hex_digits m) - 1) \<le> m \<and> m < 16 ^ length (hex_digits m)"
proof (induction m rule: hex_digits.induct)
  case (1 n)
  show ?case
  proof (cases "n < 16")
    case True
    with 1(2) show ?thesis
      by (subst (1 2) hex_digits.simps) simp
  next
    case False
    then have pos: "0 < n div 16" by (simp add: div_greater_zero_iff)
    from 1(1) [OF False pos]
    have lo: "16 ^ (length (hex_digits (n div 16)) - 1) \<le> n div 16"
      and hi: "n div 16 < 16 ^ length (hex_digits (n div 16))" by simp_all
    have len: "length (hex_digits n) = Suc (length (hex_digits (n div 16)))"
      using False by (subst hex_digits.simps) simp
    have l0: "0 < length (hex_digits (n div 16))"
      by (subst hex_digits.simps) simp
    have "16 * 16 ^ (length (hex_digits (n div 16)) - 1) \<le> 16 * (n div 16)"
      using lo by simp
    also have "\<dots> \<le> n" by simp
    finally have a: "16 ^ (length (hex_digits n) - 1) \<le> n"
      using l0 by (simp add: len power_eq_if)
    have "Suc (n div 16) \<le> 16 ^ length (hex_digits (n div 16))"
      using hi by simp
    then have "16 * Suc (n div 16) \<le> 16 * 16 ^ length (hex_digits (n div 16))"
      by (rule mult_le_mono2)
    moreover have "n < 16 * Suc (n div 16)"
      using div_mult_mod_eq [of n 16] by simp
    ultimately have b: "n < 16 ^ length (hex_digits n)" by (simp add: len)
    show ?thesis using a b by simp
  qed
qed

text \<open>
  C9, as the code has it. A \<open>None\<close> payload renders as \<open><none!>\<close> before anything is
  resolved. For an integer payload \<open>n\<close>: a string that resolves and is not empty is
  rendered by \<open>repr\<close>, whatever the names say; otherwise a name that resolves is
  rendered; otherwise \<open>n < 16\<close> is rendered by \<open>%u\<close>, which for \<open>0 \<le> n\<close> is at most two
  decimal digits denoting \<open>n\<close>, and \<open>16 \<le> n\<close> is rendered as \<open>0x\<close> followed by the
  hexadecimal digits of \<open>n\<close> with no padding: as many digits as \<open>n\<close> needs, so the
  width grows with the value.
\<close>

theorem value_str_cascade:
  "value_str E None = ''<none!>''
   \<and> (get_string E n = Some s \<and> s \<noteq> [] \<longrightarrow> value_str E (Some n) = py_repr E s)
   \<and> (get_string E n = None \<or> get_string E n = Some [] \<longrightarrow>
        (names E n = Some nm \<longrightarrow> value_str E (Some n) = nm)
      \<and> (names E n = None \<longrightarrow>
           (n < 16 \<longrightarrow> value_str E (Some n) = fmt_u n
              \<and> (0 \<le> n \<longrightarrow> digits_value 10 (fmt_u n) = nat n \<and> length (fmt_u n) \<le> 2))
         \<and> (16 \<le> n \<longrightarrow> value_str E (Some n) = ''0x'' @ hex_digits (nat n)
              \<and> digits_value 16 (hex_digits (nat n)) = nat n
              \<and> 16 ^ (length (hex_digits (nat n)) - 1) \<le> nat n
              \<and> nat n < 16 ^ length (hex_digits (nat n)))))"
proof -
  have small: "length (fmt_u n) \<le> 2" if "0 \<le> n" "n < 16"
  proof -
    have "length (dec_digits (nat n)) \<le> 2"
      using that by (subst dec_digits.simps, subst dec_digits.simps) simp
    then show ?thesis using that by (simp add: fmt_u_def)
  qed
  have w: "16 ^ (length (hex_digits (nat n)) - 1) \<le> nat n \<and> nat n < 16 ^ length (hex_digits (nat n))"
    if "16 \<le> n"
    using that hex_digits_width [of "nat n"] by simp
  show ?thesis
    using small w
    by (auto simp: value_str_def fmt_x_def fmt_u_def dec_digits_value hex_digits_value)
qed

theorem value_str_cascade_witness:
  "get_string env0 4096 = None \<and> names env0 4096 = None \<and> (16::int) \<le> 4096
   \<and> value_str env0 (Some 4096) = ''0x1000''
   \<and> digits_value 16 ''1000'' = 4096"
proof -
  have h: "hex_digits (nat 4096) = ''1000''"
    by (simp add: hex_digits.simps digit_char_def)
  have e: "get_string env0 4096 = None" "names env0 4096 = None"
    by (simp_all add: env0_def)
  show ?thesis
    using value_str_cascade [of env0 4096 "[]" "[]"] e h by simp
qed

text \<open>
  The hexadecimal rendering has no fixed width: 16 takes four characters and 256 five.
\<close>

theorem value_str_width_counterexample:
  "value_str env0 (Some 16) = ''0x10'' \<and> value_str env0 (Some 256) = ''0x100''
   \<and> length (value_str env0 (Some 16)) \<noteq> length (value_str env0 (Some 256))"
  by (simp add: value_str_def env0_def fmt_x_def hex_digits.simps digit_char_def)

subsection \<open>Rendering the operand of a unary operator\<close>

lemma parenthesized_kind_iff: "parenthesized_kind nd \<longleftrightarrow> \<not> is_plain_leaf nd"
  by (cases nd) (auto intro: regcls.exhaust)

lemma uexpr_str_fix:
  assumes "k \<in> {not_t, b_not_t, deref_t, address_t, neg_t, preinc_t, predec_t, postinc_t, postdec_t}"
  shows "uexpr_str k plain s =
     (if k \<in> {postinc_t, postdec_t}
      then (if plain then s else ''('' @ s @ '')'') @ uexpr_operator k
      else uexpr_operator k @ (if plain then s else ''('' @ s @ '')''))"
  using assms by auto

text \<open>
  C8. Let \<open>r\<close> be a node of one of the nine prefix and postfix operator classes, with
  operand slot \<open>a\<close> whose text is \<open>s\<close>. The text of \<open>r\<close> is the operator symbol before
  the operand text (after it for \<open>postinc_t\<close> and \<open>postdec_t\<close>), and the operand text
  stands bare exactly when the operand is a \<open>regloc_t\<close>, \<open>var_t\<close> or \<open>arg_t\<close> object;
  otherwise it stands between parentheses, which is the case of an empty slot, of a
  \<open>flagloc_t\<close>, of a literal and of every composite.
\<close>

theorem unary_operand_parentheses:
  assumes "node (objs h r) = Uexpr k a"
    and "k \<in> {not_t, b_not_t, deref_t, address_t, neg_t, preinc_t, predec_t, postinc_t, postdec_t}"
    and "py_str E n h a = Some (Inr s)"
  shows "py_str E (Suc n) h (Some r) =
           Some (Inr (if k \<in> {postinc_t, postdec_t}
                      then (if plain_operand h a then s else ''('' @ s @ '')'') @ uexpr_operator k
                      else uexpr_operator k @ (if plain_operand h a then s else ''('' @ s @ '')'')))
       \<and> (plain_operand h a \<longleftrightarrow> (\<exists>c. a = Some c \<and> is_plain_leaf (node (objs h c))))
       \<and> (\<not> plain_operand h a \<longleftrightarrow> a = None \<or> (\<exists>c. a = Some c \<and> parenthesized_kind (node (objs h c))))
       \<and> s \<noteq> ''('' @ s @ '')''"
proof -
  have 1: "py_str E (Suc n) h (Some r) = Some (Inr (uexpr_str k (plain_operand h a) s))"
    using assms(1,3) by (simp add: bnd_def)
  have 2: "plain_operand h a \<longleftrightarrow> (\<exists>c. a = Some c \<and> is_plain_leaf (node (objs h c)))"
    by (cases a) (simp_all add: plain_operand_def)
  have 3: "\<not> plain_operand h a \<longleftrightarrow> a = None \<or> (\<exists>c. a = Some c \<and> parenthesized_kind (node (objs h c)))"
    by (cases a) (simp_all add: plain_operand_def parenthesized_kind_iff)
  have 4: "s \<noteq> ''('' @ s @ '')''"
  proof
    assume "s = ''('' @ s @ '')''"
    then have "length s = length (''('' @ s @ '')'')" by simp
    then show False by simp
  qed
  show ?thesis
    unfolding 1 uexpr_str_fix [OF assms(2)] using 2 3 4 by blast
qed

theorem unary_operand_parentheses_witness:
  "node (objs scene_unary 1) = Uexpr not_t (Some 0)
   \<and> py_str env0 1 scene_unary (Some 0) = Some (Inr ''ecx'')
   \<and> py_str env0 2 scene_unary (Some 1) = Some (Inr ''~ecx'')
   \<and> node (objs scene_unary 3) = Uexpr postdec_t (Some 2)
   \<and> py_str env0 1 scene_unary (Some 2) = Some (Inr ''ecx'')
   \<and> py_str env0 2 scene_unary (Some 3) = Some (Inr ''(ecx)--'')"
proof -
  have n: "node (objs scene_unary 0) = Regloc regloc_t 1 None None"
    "node (objs scene_unary 1) = Uexpr not_t (Some 0)"
    "node (objs scene_unary 2) = Regloc flagloc_t 1 None None"
    "node (objs scene_unary 3) = Uexpr postdec_t (Some 2)"
    by (simp_all add: scene_unary_def build_defs)
  have s: "py_str env0 (Suc 0) scene_unary (Some 0) = Some (Inr ''ecx'')"
    "py_str env0 (Suc 0) scene_unary (Some 2) = Some (Inr ''ecx'')"
    by (simp_all add: n regloc_str_def regname_def regs_def)
  have p: "plain_operand scene_unary (Some 0)" "\<not> plain_operand scene_unary (Some 2)"
    by (simp_all add: plain_operand_def n)
  have "py_str env0 (Suc (Suc 0)) scene_unary (Some 1) = Some (Inr ''~ecx'')"
    using unary_operand_parentheses [OF n(2) _ s(1)] p by simp
  moreover have "py_str env0 (Suc (Suc 0)) scene_unary (Some 3) = Some (Inr ''(ecx)--'')"
    using unary_operand_parentheses [OF n(4) _ s(2)] p by simp
  ultimately show ?thesis using n s by (simp add: numeral_2_eq_2)
qed

subsection \<open>Copies that do not exist or do not compare equal\<close>

text \<open>
  C4 at two inputs. \<open>ternary_if_t(value_t(1), value_t(2), value_t(3)).copy()\<close> raises
  AttributeError, since neither \<open>ternary_if_t\<close> nor its bases define \<open>copy\<close>. For
  \<open>c = call_t(value_t(4096), None)\<close> the copy is built, as object 3, and
  \<open>c.copy() == c\<close> is false, since \<open>call_t\<close> has no \<open>__eq__\<close> and the comparison is
  identity.
\<close>

theorem copy_ternary_and_call:
  "node (objs scene_ternary 3) = Ternary_if_t (Some 0) (Some 1) (Some 2)
   \<and> copy env0 2 scene_ternary (Some 3) = Some (Inl AttributeError, scene_ternary)
   \<and> node (objs scene_call 1) = Call_t (Some 0) None
   \<and> fst (the (copy env0 2 scene_call (Some 1))) = Inr 3
   \<and> node (objs (snd (the (copy env0 2 scene_call (Some 1)))) 3) = Call_t (Some 2) None
   \<and> py_eq 2 (snd (the (copy env0 2 scene_call (Some 1)))) (Some 3) (Some 1) = Some False"
proof -
  have t: "node (objs scene_ternary 3) = Ternary_if_t (Some 0) (Some 1) (Some 2)"
    by (simp add: scene_ternary_def build_defs)
  have c: "node (objs scene_call 1) = Call_t (Some 0) None"
    "node (objs scene_call 0) = Value_t (Some 4096)" "nxt scene_call = 2"
    by (simp_all add: scene_call_def build_defs)
  have 1: "copy env0 (Suc (Suc 0)) scene_ternary (Some 3) = Some (Inl AttributeError, scene_ternary)"
    by (simp add: t)
  define h1 where "h1 = snd (new_value scene_call (Some 4096))"
  have v: "new_value scene_call (Some 4096) = (Inr 2, h1)"
    by (simp add: h1_def new_value_def alloc_def c)
  have h1: "parent (objs h1 2) = None" "nxt h1 = 3"
    by (simp_all add: h1_def new_value_def alloc_def c)
  have 2: "copy env0 (Suc (Suc 0)) scene_call (Some 1) = Some (new_call env0 (Suc 0) h1 (Some 2) None)"
    using c v by (simp add: cbnd_def truthy_def)
  have 3: "fst (new_call env0 (Suc 0) h1 (Some 2) None) = Inr 3"
    "node (objs (snd (new_call env0 (Suc 0) h1 (Some 2) None)) 3) = Call_t (Some 2) None"
    "node (objs (snd (new_call env0 (Suc 0) h1 (Some 2) None)) 1) = Call_t (Some 0) None"
    using h1 c(1) by (simp_all add: build_defs h1_def c)
  have 4: "py_eq (Suc (Suc 0)) (snd (new_call env0 (Suc 0) h1 (Some 2) None)) (Some 3) (Some 1) = Some False"
    using 3 by simp
  show ?thesis using t c(1) 1 2 3 4 by (simp add: numeral_2_eq_2)
qed


subsection \<open>Slot assignment\<close>

text \<open>What a slot assignment that passes its assertions leaves in the store.\<close>

lemma store_operand_Nil [simp]: "operands (store_operand nd k v) = [] \<longleftrightarrow> operands nd = []"
  by (cases nd) simp_all

lemma expr_setitem_Some:
  "expr_setitem h p k (Some v) =
     (if parent (objs h v) = None then
        (case py_index (length (operands (node (objs h p)))) k of
           None \<Rightarrow> (Inl IndexError, set_parent h v (Some (p, k)))
         | Some i \<Rightarrow>
            (Inr (), set_node (set_parent h v (Some (p, k))) p
                       (store_operand (node (objs h p)) i (Some v))))
      else (Inl AssertionError, h))"
  by (simp add: expr_setitem_def Let_def split: option.splits)

lemma expr_setitem_None:
  "expr_setitem h p k None =
     (case py_index (length (operands (node (objs h p)))) k of
        None \<Rightarrow> (Inl IndexError, h)
      | Some i \<Rightarrow> (Inr (), set_node h p (store_operand (node (objs h p)) i None)))"
  by (simp add: expr_setitem_def)

lemma setitem_cases:
  "setitem E n h p k val =
     (if is_assign (node (objs h p)) \<and> k = 0 then
        (case val of
           None \<Rightarrow> (Inl (assign_assert_fails E n h p val), h)
         | Some v \<Rightarrow>
             if is_assignable (node (objs h v)) then expr_setitem (set_is_def h v True) p k val
             else (Inl (assign_assert_fails E n h p val), h))
      else if is_expr (node (objs h p)) then expr_setitem h p k val
      else (Inl TypeError, h))"
  by (auto simp: setitem_def assign_setitem_def Let_def dest: is_assign_is_expr split: option.splits)

text \<open>
  A slot assignment that returns wrote to the position \<open>i\<close> of the key, and through the
  assertion of \<open>assign_t\<close> only when the key is 0.
\<close>

lemma setitem_Inr_form:
  assumes "setitem E n h p k val = (Inr u, h')"
  shows "\<exists>i. py_index (length (operands (node (objs h p)))) k = Some i
     \<and> (val = None \<longrightarrow>
           \<not> (is_assign (node (objs h p)) \<and> k = 0)
           \<and> h' = set_node h p (store_operand (node (objs h p)) i None))
     \<and> (\<forall>v. val = Some v \<longrightarrow>
           parent (objs h v) = None
           \<and> (is_assign (node (objs h p)) \<and> k = 0 \<longrightarrow> is_assignable (node (objs h v)))
           \<and> h' = set_node
                  (set_parent
                     (if is_assign (node (objs h p)) \<and> k = 0 then set_is_def h v True else h)
                     v (Some (p, k)))
                  p (store_operand (node (objs h p)) i (Some v)))"
proof (cases val)
  case None
  then show ?thesis
    using assms
    by (auto simp: setitem_cases expr_setitem_None split: if_splits option.splits)
next
  case (Some w)
  then show ?thesis
    using assms
    by (auto simp: setitem_cases expr_setitem_Some split: if_splits option.splits)
qed

lemma setitem_Some_ok:
  assumes "py_index (length (operands (node (objs h p)))) k = Some i"
    and "parent (objs h v) = None"
    and "is_assign (node (objs h p)) \<and> k = 0 \<longrightarrow> is_assignable (node (objs h v))"
  shows "\<exists>h'. setitem E n h p k (Some v) = (Inr (), h')"
proof -
  have e: "is_expr (node (objs h p))"
    using py_index_less [OF assms(1)] by (auto simp: is_expr_iff_slots)
  show ?thesis
  proof (cases "is_assign (node (objs h p)) \<and> k = 0")
    case True
    then show ?thesis
      using assms by (simp add: setitem_cases expr_setitem_Some)
  next
    case False
    have "setitem E n h p k (Some v) = expr_setitem h p k (Some v)"
      using False e by (auto simp: setitem_cases)
    then show ?thesis
      using assms(1,2) by (simp add: expr_setitem_Some)
  qed
qed

text \<open>A slot assignment that returns: what it wrote and what it left alone.\<close>

lemma setitem_Inr:
  assumes "setitem E n h p k val = (Inr u, h')"
  shows "\<exists>i. py_index (length (operands (node (objs h p)))) k = Some i
            \<and> node (objs h' p) = store_operand (node (objs h p)) i val"
    and "getitem h' p k = Inr val"
    and "length (operands (node (objs h' p))) = length (operands (node (objs h p)))"
    and "\<And>x. x \<noteq> p \<Longrightarrow> node (objs h' x) = node (objs h x)"
    and "\<And>x. parent (objs h' x) = (if val = Some x then Some (p, k) else parent (objs h x))"
    and "\<And>v. val = Some v \<Longrightarrow> parent (objs h v) = None"
    and "is_assign (node (objs h p)) \<Longrightarrow> k = 0 \<Longrightarrow>
           \<exists>v. val = Some v \<and> is_assignable (node (objs h v)) \<and> is_def (objs h' v)"
    and "nxt h' = nxt h"
proof -
  from setitem_Inr_form [OF assms] obtain i where
    i: "py_index (length (operands (node (objs h p)))) k = Some i"
    and f2: "val = None \<Longrightarrow> \<not> (is_assign (node (objs h p)) \<and> k = 0)
           \<and> h' = set_node h p (store_operand (node (objs h p)) i None)"
    and f3: "\<And>v. val = Some v \<Longrightarrow> parent (objs h v) = None
           \<and> (is_assign (node (objs h p)) \<and> k = 0 \<longrightarrow> is_assignable (node (objs h v)))
           \<and> h' = set_node
                  (set_parent
                     (if is_assign (node (objs h p)) \<and> k = 0 then set_is_def h v True else h)
                     v (Some (p, k)))
                  p (store_operand (node (objs h p)) i (Some v))"
    by blast
  have n: "node (objs h' p) = store_operand (node (objs h p)) i val"
  proof (cases val)
    case None
    then show ?thesis using f2 by simp
  next
    case (Some w)
    then show ?thesis using f3 [of w] by simp
  qed
  show "\<exists>i. py_index (length (operands (node (objs h p)))) k = Some i
            \<and> node (objs h' p) = store_operand (node (objs h p)) i val"
    using i n by blast
  show l: "length (operands (node (objs h' p))) = length (operands (node (objs h p)))"
    by (simp add: n)
  show "getitem h' p k = Inr val"
    using i py_index_less [OF i] by (simp add: getitem_Inr_iff l) (simp add: n nth_store_operand)
  show "node (objs h' x) = node (objs h x)" if "x \<noteq> p" for x
  proof (cases val)
    case None
    then show ?thesis using f2 that by simp
  next
    case (Some w)
    then show ?thesis using f3 [of w] that by simp
  qed
  show "parent (objs h' x) = (if val = Some x then Some (p, k) else parent (objs h x))" for x
  proof (cases val)
    case None
    then show ?thesis using f2 by simp
  next
    case (Some w)
    then show ?thesis using f3 [of w] by auto
  qed
  show "parent (objs h v) = None" if "val = Some v" for v
    using f3 [OF that] by simp
  show "\<exists>v. val = Some v \<and> is_assignable (node (objs h v)) \<and> is_def (objs h' v)"
    if "is_assign (node (objs h p))" "k = 0"
  proof (cases val)
    case None
    then show ?thesis using f2 that by simp
  next
    case (Some w)
    then show ?thesis using f3 [of w] that by simp
  qed
  show "nxt h' = nxt h"
  proof (cases val)
    case None
    then show ?thesis using f2 by simp
  next
    case (Some w)
    then show ?thesis using f3 [of w] by auto
  qed
qed

subsection \<open>Replacing a node\<close>

text \<open>
  C1, as the code has it. Let node \<open>n\<close> occupy the slot \<open>(p, k)\<close>: its parent link is
  \<open>(p, k)\<close> and slot \<open>k\<close> of \<open>p\<close> holds \<open>n\<close>. If the new node \<open>v\<close> has no parent, and is
  assignable when the slot is slot 0 of an assignment, then \<open>n.replace(v)\<close> returns
  \<open>n\<close>, slot \<open>k\<close> of \<open>p\<close> holds \<open>v\<close>, the parent link of \<open>v\<close> is \<open>(p, k)\<close> and the parent
  link of \<open>n\<close> is \<open>None\<close>. If \<open>n\<close> has no parent link, \<open>n.replace(v)\<close> returns \<open>None\<close> and
  leaves the store as it was. Neither depends on the names of the database or on the
  number \<open>m\<close> of nested calls allowed.
\<close>

theorem replace_installs_and_detaches:
  "(parent (objs h n) = Some (p, k) \<and> getitem h p k = Inr (Some n)
      \<and> parent (objs h v) = None
      \<and> (is_assign (node (objs h p)) \<and> k = 0 \<longrightarrow> is_assignable (node (objs h v)))
    \<longrightarrow> fst (replace E m h n (Some v)) = Inr (Some n)
      \<and> getitem (snd (replace E m h n (Some v))) p k = Inr (Some v)
      \<and> parent (objs (snd (replace E m h n (Some v))) v) = Some (p, k)
      \<and> parent (objs (snd (replace E m h n (Some v))) n) = None)
   \<and> (parent (objs h n) = None \<longrightarrow> replace E m h n (Some v) = (Inr None, h))"
proof (intro conjI impI)
  assume a: "parent (objs h n) = Some (p, k) \<and> getitem h p k = Inr (Some n)
      \<and> parent (objs h v) = None
      \<and> (is_assign (node (objs h p)) \<and> k = 0 \<longrightarrow> is_assignable (node (objs h v)))"
  then obtain i where k: "py_index (length (operands (node (objs h p)))) k = Some i"
    by (auto simp: getitem_Inr_iff)
  from setitem_Some_ok [OF k] a obtain h' where
    s: "setitem E m h p k (Some v) = (Inr (), h')"
    by blast
  have g: "getitem h' p k = Inr (Some v)"
    by (rule setitem_Inr(2) [OF s])
  have p: "\<forall>x. parent (objs h' x) = (if x = v then Some (p, k) else parent (objs h x))"
    using setitem_Inr(5) [OF s] by auto
  have nv: "n \<noteq> v" using a by auto
  have r: "replace E m h n (Some v) = (Inr (Some n), set_parent h' n None)"
    using a s by (simp add: replace_def)
  have g': "getitem (set_parent h' n None) p k = Inr (Some v)"
    using g by (simp add: getitem_Inr_iff)
  show "fst (replace E m h n (Some v)) = Inr (Some n)"
    and "getitem (snd (replace E m h n (Some v))) p k = Inr (Some v)"
    and "parent (objs (snd (replace E m h n (Some v))) v) = Some (p, k)"
    and "parent (objs (snd (replace E m h n (Some v))) n) = None"
    using r g' p nv by simp_all
next
  assume "parent (objs h n) = None"
  then show "replace E m h n (Some v) = (Inr None, h)"
    by (simp add: replace_def)
qed

lemma scene_reg_objs:
  "objs scene_reg 0 = \<lparr>parent = Some (2, 1), is_def = False, node = Regloc regloc_t 0 None None\<rparr>"
  "objs scene_reg (Suc 0) = \<lparr>parent = Some (2, 0), is_def = False, node = Value_t (Some 1)\<rparr>"
  "objs scene_reg 2 = \<lparr>parent = None, is_def = False, node = Bexpr add_t (Some 1) (Some 0)\<rparr>"
  "objs scene_reg 3 = \<lparr>parent = None, is_def = False, node = Value_t (Some 8)\<rparr>"
  "nxt scene_reg = 4"
  by (simp_all add: scene_reg_def build_defs)

text \<open>
  The example of the docstring: \<open>loc.replace(value_t(8))\<close> puts the literal in slot 1
  of \<open>e\<close> and detaches \<open>loc\<close>; replacing the literal 8, which has no parent, does nothing.
\<close>

theorem replace_installs_and_detaches_witness:
  "parent (objs scene_reg 0) = Some (2, 1) \<and> getitem scene_reg 2 1 = Inr (Some 0)
   \<and> parent (objs scene_reg 3) = None
   \<and> fst (replace env0 10 scene_reg 0 (Some 3)) = Inr (Some 0)
   \<and> getitem (snd (replace env0 10 scene_reg 0 (Some 3))) 2 1 = Inr (Some 3)
   \<and> parent (objs (snd (replace env0 10 scene_reg 0 (Some 3))) 3) = Some (2, 1)
   \<and> parent (objs (snd (replace env0 10 scene_reg 0 (Some 3))) 0) = None
   \<and> replace env0 10 scene_reg 3 (Some 0) = (Inr None, scene_reg)"
proof -
  have a: "parent (objs scene_reg 0) = Some (2, 1)" "getitem scene_reg 2 1 = Inr (Some 0)"
    "parent (objs scene_reg 3) = None" "\<not> is_assign (node (objs scene_reg 2))"
    by (simp_all add: scene_reg_objs getitem_def py_index_def)
  show ?thesis
    using a replace_installs_and_detaches [of scene_reg 0 2 1 3 env0 10]
      replace_installs_and_detaches [of scene_reg 3 2 1 0 env0 10]
    by simp
qed

text \<open>
  Without the condition on the new node the claim fails: the literal 1 is replaceable
  and already sits in slot 0 of \<open>e\<close>, and \<open>loc.replace\<close> of it stops at the assertion
  of \<open>__setitem__\<close>, with \<open>loc\<close> still in slot 1 and still linked.
\<close>

theorem replace_owned_new_counterexample:
  "parent (objs scene_reg 0) = Some (2, 1) \<and> getitem scene_reg 2 1 = Inr (Some 0)
   \<and> replace env0 10 scene_reg 0 (Some 1) = (Inl AssertionError, scene_reg)"
  by (simp add: scene_reg_objs getitem_def py_index_def replace_def setitem_cases expr_setitem_Some)

subsection \<open>Overwriting a slot\<close>

lemma scene_stale_objs:
  "objs scene_stale 0 = \<lparr>parent = Some (2, 1), is_def = False, node = Regloc regloc_t 0 None None\<rparr>"
  "objs scene_stale (Suc 0) = \<lparr>parent = Some (2, 0), is_def = False, node = Value_t (Some 1)\<rparr>"
  "objs scene_stale 2 = \<lparr>parent = None, is_def = False, node = Bexpr add_t (Some 1) (Some 3)\<rparr>"
  "objs scene_stale 3 = \<lparr>parent = Some (2, 1), is_def = False, node = Value_t (Some 8)\<rparr>"
  "objs scene_stale 4 = \<lparr>parent = None, is_def = False, node = Value_t (Some 9)\<rparr>"
  by (simp_all add: scene_stale_def scene_reg_objs setitem_cases expr_setitem_Some
      new_value_def alloc_def set_parent_def set_node_def)

text \<open>
  C2 at the example of the docstring of \<open>replaceable_t\<close>, with the slot overwritten by
  assignment instead of \<open>replace\<close>. Before, \<open>loc\<close> sits in slot 1 of \<open>e\<close> and its parent
  link says so. \<open>e[1] = value_t(8)\<close> returns and the slot holds the literal, but the
  parent link of \<open>loc\<close> is still \<open>(e, 1)\<close>: the link names a slot that holds another
  node. From then on \<open>loc.replace(w)\<close> stops at the assertion
  \<open>parent operand should have been this object\<close> of \<open>replace\<close>, and \<open>loc\<close>, which no
  slot holds, is refused by every slot as a node that already has a parent.
\<close>

theorem setitem_overwrite_stale_link:
  "getitem scene_reg 2 1 = Inr (Some 0) \<and> linked scene_reg 0
   \<and> fst (setitem env0 10 scene_reg 2 1 (Some 3)) = Inr ()
   \<and> getitem scene_stale 2 1 = Inr (Some 3)
   \<and> parent (objs scene_stale 0) = Some (2, 1)
   \<and> \<not> linked scene_stale 0
   \<and> parent (objs scene_stale 4) = None
   \<and> replace env0 10 scene_stale 0 (Some 4) = (Inl AssertionError, scene_stale)
   \<and> setitem env0 10 scene_stale 2 0 (Some 0) = (Inl AssertionError, scene_stale)"
  by (simp add: setitem_cases expr_setitem_Some scene_reg_objs scene_stale_objs getitem_def
      linked_def replace_def)

subsection \<open>The target of an assignment\<close>

lemma is_assign_slots: "is_assign nd \<Longrightarrow> length (operands nd) = 2"
  by (cases nd) simp_all

text \<open>
  The constructor \<open>assign_t(op1, op2)\<close> stops at its assertion unless \<open>op1\<close> is an
  assignable node; when it returns, \<open>op1\<close> is assignable, sits in slot 0 of the new
  node and has \<open>is_def\<close> set.
\<close>

lemma new_assign_Inl:
  "\<not> (\<exists>v. op1 = Some v \<and> is_assignable (node (objs h v)))
   \<Longrightarrow> new_assign E n h op1 op2 = (Inl AssertionError, h)"
  by (cases op1) (simp_all add: new_assign_def)

lemma new_assign_Inr:
  assumes "new_assign E n h op1 op2 = (Inr r, h1)"
  shows "\<exists>v. op1 = Some v \<and> is_assignable (node (objs h v)) \<and> is_def (objs h1 v)
            \<and> getitem h1 r 0 = Inr (Some v) \<and> is_assign (node (objs h1 r))"
proof -
  from assms obtain v where v: "op1 = Some v" and av: "is_assignable (node (objs h v))"
    by (cases op1) (auto simp: new_assign_def split: if_splits)
  from assms v av obtain hx where
    e: "new_expr E n h (Bexpr assign_t None None) [Some v, op2] = (Inr r, hx)"
    and h1: "h1 = set_is_def hx v True"
    by (auto simp: new_assign_def split: prod.splits sum.splits)
  define h0 where "h0 = snd (alloc h (Bexpr assign_t None None))"
  have al: "alloc h (Bexpr assign_t None None) = (nxt h, h0)"
    by (simp add: h0_def alloc_def)
  have n0: "node (objs h0 (nxt h)) = Bexpr assign_t None None"
    by (simp add: h0_def alloc_def)
  from e al have r: "r = nxt h"
    and i: "init_slots E n h0 r 0 [Some v, op2] = (Inr (), hx)"
    by (auto simp: new_expr_def split: prod.splits sum.splits)
  from i obtain ha where
    s0: "setitem E n h0 r (int 0) (Some v) = (Inr (), ha)"
    and s1: "setitem E n ha r (int (Suc 0)) op2 = (Inr (), hx)"
    by (auto split: prod.splits sum.splits)
  have na: "node (objs ha r) = Bexpr assign_t (Some v) None"
    using setitem_Inr(1) [OF s0] n0 r by auto
  have nx: "node (objs hx r) = store_operand (Bexpr assign_t (Some v) None) (Suc 0) op2"
    using setitem_Inr(1) [OF s1] na by auto
  have g: "getitem hx r 0 = Inr (Some v)" and a: "is_assign (node (objs hx r))"
    by (simp_all add: getitem_Inr_iff nx)
  show ?thesis
    using v av g a by (simp add: h1 getitem_Inr_iff)
qed

text \<open>
  On an existing assignment node \<open>a\<close>, \<open>a[0] = val\<close> leaves with the exception of the
  failing assertion of \<open>assign_t.__setitem__\<close>, and the store as it was, unless \<open>val\<close>
  is an assignable node; when it returns, \<open>val\<close> is assignable, sits in slot 0 of \<open>a\<close>
  and has \<open>is_def\<close> set. This is the key 0 only.
\<close>

lemma assign_key_0_validated:
  assumes "is_assign (node (objs h a))"
  shows "\<not> (\<exists>v. val = Some v \<and> is_assignable (node (objs h v)))
           \<Longrightarrow> setitem E n h a 0 val = (Inl (assign_assert_fails E n h a val), h)"
    and "setitem E n h a 0 val = (Inr (), h2)
           \<Longrightarrow> \<exists>v. val = Some v \<and> is_assignable (node (objs h v)) \<and> is_def (objs h2 v)
                  \<and> getitem h2 a 0 = Inr (Some v)"
proof -
  show "setitem E n h a 0 val = (Inl (assign_assert_fails E n h a val), h)"
    if "\<not> (\<exists>v. val = Some v \<and> is_assignable (node (objs h v)))"
    using assms that by (cases val) (simp_all add: setitem_cases)
  show "\<exists>v. val = Some v \<and> is_assignable (node (objs h v)) \<and> is_def (objs h2 v)
                  \<and> getitem h2 a 0 = Inr (Some v)"
    if s: "setitem E n h a 0 val = (Inr (), h2)"
  proof -
    from setitem_Inr(7) [OF s assms] obtain v where
      "val = Some v" "is_assignable (node (objs h v))" "is_def (objs h2 v)"
      by blast
    then show ?thesis
      using setitem_Inr(2) [OF s] by simp
  qed
qed

lemma scene_assign_objs:
  "objs scene_assign 0 = \<lparr>parent = Some (2, 0), is_def = True, node = Regloc regloc_t 0 None None\<rparr>"
  "objs scene_assign (Suc 0) = \<lparr>parent = Some (2, 1), is_def = False, node = Value_t (Some 1)\<rparr>"
  "objs scene_assign 2 = \<lparr>parent = None, is_def = False, node = Bexpr assign_t (Some 0) (Some 1)\<rparr>"
  "objs scene_assign 3 = \<lparr>parent = None, is_def = False, node = Value_t (Some 5)\<rparr>"
  "objs scene_assign 4 = \<lparr>parent = None, is_def = False, node = Regloc regloc_t 1 None None\<rparr>"
  "nxt scene_assign = 5"
  by (simp_all add: scene_assign_def build_defs)

text \<open>The texts of the literal 5 and of \<open>a\<close>, which need one and two nested calls.\<close>

lemma scene_assign_str:
  "py_str env0 (Suc (Suc n)) scene_assign (Some 3) = Some (Inr ''5'')"
  "py_str env0 (Suc (Suc n)) scene_assign (Some 2) = Some (Inr ''eax = 1'')"
  by (simp_all add: scene_assign_objs bnd_def value_str_def env0_def fmt_u_def
      dec_digits.simps digit_char_def regloc_str_def regname_def regs_def)

text \<open>
  C5 on \<open>a = assign_t(regloc_t(0), value_t(1))\<close>, with the literal \<open>v = value_t(5)\<close> and
  the register \<open>r = regloc_t(1)\<close>. \<open>a[0] = v\<close> stops at the assertion of
  \<open>assign_t.__setitem__\<close>. \<open>a[-2] = v\<close> writes the same slot, the first of two, and
  returns: the key is not 0, so nothing is asserted, and the left side of the
  assignment is a literal that is not assignable. \<open>a[-2] = r\<close> returns as well and
  leaves \<open>is_def\<close> of \<open>r\<close> unset.
\<close>

theorem assign_negative_key_unvalidated:
  "is_assign (node (objs scene_assign 2)) \<and> getitem scene_assign 2 0 = Inr (Some 0)
   \<and> node (objs scene_assign 3) = Value_t (Some 5)
   \<and> \<not> is_assignable (node (objs scene_assign 3))
   \<and> setitem env0 10 scene_assign 2 0 (Some 3) = (Inl AssertionError, scene_assign)
   \<and> fst (setitem env0 10 scene_assign 2 (- 2) (Some 3)) = Inr ()
   \<and> getitem (snd (setitem env0 10 scene_assign 2 (- 2) (Some 3))) 2 0 = Inr (Some 3)
   \<and> is_assignable (node (objs scene_assign 4))
   \<and> fst (setitem env0 10 scene_assign 2 (- 2) (Some 4)) = Inr ()
   \<and> getitem (snd (setitem env0 10 scene_assign 2 (- 2) (Some 4))) 2 0 = Inr (Some 4)
   \<and> \<not> is_def (objs (snd (setitem env0 10 scene_assign 2 (- 2) (Some 4))) 4)"
  using scene_assign_str [of 8]
  by (simp add: setitem_cases expr_setitem_Some scene_assign_objs getitem_def
      assign_assert_fails_def)

text \<open>
  The message of the assertion is built before AssertionError is raised. With
  \<open>c = call_t(value_t(None), None)\<close>, whose text is a TypeError, \<open>a[0] = c\<close> leaves with
  TypeError.
\<close>

lemma scene_badcall_objs:
  "objs scene_badcall 2 = \<lparr>parent = None, is_def = False, node = Bexpr assign_t (Some 0) (Some 1)\<rparr>"
  "objs scene_badcall 5 = \<lparr>parent = Some (6, 0), is_def = False, node = Value_t None\<rparr>"
  "objs scene_badcall 6 = \<lparr>parent = None, is_def = False, node = Call_t (Some 5) None\<rparr>"
  by (simp_all add: scene_badcall_def scene_assign_objs new_value_def new_call_def new_expr_def
      alloc_def setitem_cases expr_setitem_Some expr_setitem_None set_parent_def set_node_def)

lemma assign_assert_message_raises:
  "setitem env0 10 scene_badcall 2 0 (Some 6) = (Inl TypeError, scene_badcall)"
proof -
  have "py_str env0 (Suc (Suc n)) scene_badcall (Some 6) = Some (Inl TypeError)" for n
    by (simp add: scene_badcall_objs bnd_def)
  from this [of 8] have "assign_assert_fails env0 10 scene_badcall 2 (Some 6) = TypeError"
    by (simp add: assign_assert_fails_def)
  then show ?thesis
    by (simp add: setitem_cases scene_badcall_objs)
qed

subsection \<open>What the constructors and \<open>copy\<close> leave alone\<close>

lemma objs_set_other [simp]:
  "x \<noteq> r \<Longrightarrow> objs (set_parent h r p) x = objs h x"
  "x \<noteq> r \<Longrightarrow> objs (set_is_def h r b) x = objs h x"
  "x \<noteq> r \<Longrightarrow> objs (set_node h r nd) x = objs h x"
  by (simp_all add: set_parent_def set_is_def_def set_node_def)

lemma is_assignable_store_operand [simp]:
  "is_assignable (store_operand nd k v) = is_assignable nd"
  by (cases nd) simp_all

lemma setitem_Inr_frame:
  assumes "setitem E n h s k val = (Inr u, h')"
  shows "\<And>x. x \<noteq> s \<Longrightarrow> val \<noteq> Some x \<Longrightarrow> objs h' x = objs h x"
    and "is_assignable (node (objs h' s)) = is_assignable (node (objs h s))"
    and "is_assign (node (objs h' s)) = is_assign (node (objs h s))"
proof -
  from setitem_Inr_form [OF assms] obtain i where
    f2: "val = None \<Longrightarrow> h' = set_node h s (store_operand (node (objs h s)) i None)"
    and f3: "\<And>v. val = Some v \<Longrightarrow> h' = set_node
                  (set_parent
                     (if is_assign (node (objs h s)) \<and> k = 0 then set_is_def h v True else h)
                     v (Some (s, k)))
                  s (store_operand (node (objs h s)) i (Some v))"
    by blast
  show "objs h' x = objs h x" if "x \<noteq> s" "val \<noteq> Some x" for x
  proof (cases val)
    case None
    then show ?thesis using f2 that by simp
  next
    case (Some w)
    then show ?thesis using f3 [of w] that by auto
  qed
  show "is_assignable (node (objs h' s)) = is_assignable (node (objs h s))"
    using setitem_Inr(1) [OF assms] by auto
  show "is_assign (node (objs h' s)) = is_assign (node (objs h s))"
    using setitem_Inr(1) [OF assms] by auto
qed

lemma init_slots_Inr:
  "init_slots E n h s i vs = (Inr u, h') \<Longrightarrow>
     nxt h' = nxt h
     \<and> (\<forall>x. x \<noteq> s \<and> Some x \<notin> set vs \<longrightarrow> objs h' x = objs h x)
     \<and> (Some s \<notin> set vs \<longrightarrow> parent (objs h' s) = parent (objs h s))
     \<and> is_assignable (node (objs h' s)) = is_assignable (node (objs h s))"
proof (induction vs arbitrary: h i)
  case Nil
  then show ?case by simp
next
  case (Cons v vs)
  from Cons.prems obtain h1 where
    s: "setitem E n h s (int i) v = (Inr (), h1)"
    and r: "init_slots E n h1 s (Suc i) vs = (Inr u, h')"
    by (auto split: prod.splits sum.splits)
  note ih = Cons.IH [OF r]
  have 1: "nxt h' = nxt h"
    using ih setitem_Inr(8) [OF s] by simp
  have 2: "objs h' x = objs h x" if "x \<noteq> s" "Some x \<notin> set (v # vs)" for x
  proof -
    have "objs h' x = objs h1 x" using ih that by simp
    moreover have "objs h1 x = objs h x"
      using setitem_Inr_frame(1) [OF s, of x] that by auto
    ultimately show ?thesis by simp
  qed
  have 3: "parent (objs h' s) = parent (objs h s)" if "Some s \<notin> set (v # vs)"
  proof -
    have "parent (objs h' s) = parent (objs h1 s)" using ih that by simp
    moreover have "parent (objs h1 s) = parent (objs h s)"
      using setitem_Inr(5) [OF s, of s] that by auto
    ultimately show ?thesis by simp
  qed
  have 4: "is_assignable (node (objs h' s)) = is_assignable (node (objs h s))"
    using ih setitem_Inr_frame(2) [OF s] by simp
  show ?case using 1 2 3 4 by blast
qed

lemma alloc_props:
  "alloc h nd = (r, h0) \<Longrightarrow>
     r = nxt h \<and> nxt h0 = Suc (nxt h) \<and> (\<forall>x. x \<noteq> nxt h \<longrightarrow> objs h0 x = objs h x)
     \<and> objs h0 (nxt h) = \<lparr>parent = None, is_def = False, node = nd\<rparr>"
  by (auto simp: alloc_def)

text \<open>
  A constructor returns the next free reference, with no parent as long as the new
  object is not among its own operands, and writes to no object but the new one and
  its operands.
\<close>

lemma new_expr_Inr:
  assumes "new_expr E n h blank vs = (Inr r, h')"
  shows "r = nxt h" and "nxt h' = Suc (nxt h)"
    and "\<And>x. x \<noteq> nxt h \<Longrightarrow> Some x \<notin> set vs \<Longrightarrow> objs h' x = objs h x"
    and "Some (nxt h) \<notin> set vs \<Longrightarrow> parent (objs h' r) = None"
    and "is_assignable (node (objs h' r)) = is_assignable blank"
proof -
  obtain h0 where al: "alloc h blank = (nxt h, h0)"
    by (simp add: alloc_def)
  note a = alloc_props [OF al]
  from assms al have r: "r = nxt h"
    and i: "init_slots E n h0 (nxt h) 0 vs = (Inr (), h')"
    by (auto simp: new_expr_def split: prod.splits sum.splits)
  note s = init_slots_Inr [OF i]
  show "r = nxt h" by (rule r)
  show "nxt h' = Suc (nxt h)" using s a by simp
  show "objs h' x = objs h x" if "x \<noteq> nxt h" "Some x \<notin> set vs" for x
    using s a that by simp
  show "parent (objs h' r) = None" if "Some (nxt h) \<notin> set vs"
    using s a that r by simp
  show "is_assignable (node (objs h' r)) = is_assignable blank"
    using s a r by simp
qed

lemma new_bexpr_Inr:
  assumes "new_bexpr E n h k a b = (Inr r, h')"
  shows "r = nxt h" and "nxt h' = Suc (nxt h)"
    and "\<And>x. x \<noteq> nxt h \<Longrightarrow> Some x \<notin> {a, b} \<Longrightarrow> objs h' x = objs h x"
    and "Some (nxt h) \<notin> {a, b} \<Longrightarrow> parent (objs h' r) = None"
    and "\<not> is_assignable (node (objs h' r))"
proof -
  have "\<exists>hx. new_expr E n h (Bexpr k None None) [a, b] = (Inr r, hx)
          \<and> (hx = h' \<or> (\<exists>v. a = Some v \<and> h' = set_is_def hx v True))"
    using assms
    by (auto simp: new_bexpr_def new_assign_def split: if_splits option.splits prod.splits sum.splits)
  then obtain hx where e: "new_expr E n h (Bexpr k None None) [a, b] = (Inr r, hx)"
    and h': "hx = h' \<or> (\<exists>v. a = Some v \<and> h' = set_is_def hx v True)"
    by blast
  note n = new_expr_Inr [OF e]
  show "r = nxt h" by (rule n(1))
  show "nxt h' = Suc (nxt h)" using n(2) h' by auto
  show "objs h' x = objs h x" if "x \<noteq> nxt h" "Some x \<notin> {a, b}" for x
  proof -
    have 1: "objs hx x = objs h x" using n(3) [of x] that by simp
    from h' show ?thesis
    proof
      assume "hx = h'"
      then show ?thesis using 1 by simp
    next
      assume "\<exists>v. a = Some v \<and> h' = set_is_def hx v True"
      then obtain v where "a = Some v" "h' = set_is_def hx v True" by blast
      moreover from this that have "x \<noteq> v" by auto
      ultimately show ?thesis using 1 by simp
    qed
  qed
  show "parent (objs h' r) = None" if "Some (nxt h) \<notin> {a, b}"
    using n(4) h' that by auto
  show "\<not> is_assignable (node (objs h' r))"
    using n(5) h' by auto
qed

lemma new_named_Inr:
  assumes "new_named E n h mk w name = Some (Inr r, h')"
  shows "r = nxt h" and "nxt h' = Suc (nxt h)"
    and "\<And>x. x \<noteq> nxt h \<Longrightarrow> objs h' x = objs h x"
    and "parent (objs h' r) = None"
    and "\<exists>s. node (objs h' r) = mk w s"
  using assms
  by (auto simp: new_named_def alloc_def split: option.splits sum.splits if_splits)

lemma cbnd_Inr:
  "cbnd m f = Some (Inr y, h') \<Longrightarrow> \<exists>x h1. m = Some (Inr x, h1) \<and> f x h1 = Some (Inr y, h')"
  by (auto simp: cbnd_def split: option.splits prod.splits sum.splits)

text \<open>
  A copy that returns is a fresh object without parent, of the class of the original
  where assignability is concerned, and the objects that existed before are as they
  were.
\<close>

lemma copy_Inr:
  "copy E n h v = Some (Inr c', h') \<Longrightarrow>
     nxt h \<le> c' \<and> c' < nxt h' \<and> parent (objs h' c') = None
     \<and> (\<forall>x. x < nxt h \<longrightarrow> objs h' x = objs h x)
     \<and> (\<exists>c. v = Some c \<and> is_assignable (node (objs h' c')) = is_assignable (node (objs h c)))"
proof (induction n arbitrary: h v c' h')
  case 0
  then show ?case by simp
next
  case (Suc n)
  from Suc.prems obtain c where v: "v = Some c"
    by (cases v) simp_all
  note p = Suc.prems [unfolded v]
  show ?case
  proof (cases "node (objs h c)")
    case (Regloc rc which name index)
    then show ?thesis
      using p v by (auto simp: new_regloc_def alloc_def)
  next
    case (Value_t x)
    then show ?thesis
      using p v by (auto simp: new_value_def alloc_def)
  next
    case (Var_t w name)
    with p have "cbnd (copy E n h (Some w)) (\<lambda>w' h1. new_var E n h1 w' (Some name)) = Some (Inr c', h')"
      by simp
    from cbnd_Inr [OF this] obtain w' h1 where
      1: "copy E n h (Some w) = Some (Inr w', h1)"
      and 2: "new_named E n h1 Var_t w' (Some name) = Some (Inr c', h')"
      by (auto simp: new_var_def)
    note i = Suc.IH [OF 1]
    note m = new_named_Inr [OF 2]
    have "nxt h \<le> nxt h1" using i by simp
    then show ?thesis
      using i m v Var_t by auto
  next
    case (Arg_t w name)
    with p have "cbnd (copy E n h (Some w)) (\<lambda>w' h1. new_arg E n h1 w' (Some name)) = Some (Inr c', h')"
      by simp
    from cbnd_Inr [OF this] obtain w' h1 where
      1: "copy E n h (Some w) = Some (Inr w', h1)"
      and 2: "new_named E n h1 Arg_t w' (Some name) = Some (Inr c', h')"
      by (auto simp: new_arg_def)
    note i = Suc.IH [OF 1]
    note m = new_named_Inr [OF 2]
    have "nxt h \<le> nxt h1" using i by simp
    then show ?thesis
      using i m v Arg_t by auto
  next
    case (Call_t fct params)
    with p have "cbnd (copy E n h fct) (\<lambda>f' h1.
          cbnd (if truthy h1 params then
                  cbnd (copy E n h1 params) (\<lambda>p' h2. Some (Inr (Some p'), h2))
                else Some (Inr None, h1))
            (\<lambda>p' h2. Some (new_call E n h2 (Some f') p'))) = Some (Inr c', h')"
      by simp
    from cbnd_Inr [OF this] obtain f' h1 where
      1: "copy E n h fct = Some (Inr f', h1)"
      and 2: "cbnd (if truthy h1 params then
                  cbnd (copy E n h1 params) (\<lambda>p' h2. Some (Inr (Some p'), h2))
                else Some (Inr None, h1))
            (\<lambda>p' h2. Some (new_call E n h2 (Some f') p')) = Some (Inr c', h')"
      by blast
    from cbnd_Inr [OF 2] obtain q h2 where
      3: "(if truthy h1 params then
                  cbnd (copy E n h1 params) (\<lambda>p' h2. Some (Inr (Some p'), h2))
                else Some (Inr None, h1)) = Some (Inr q, h2)"
      and 4: "new_expr E n h2 (Call_t None None) [Some f', q] = (Inr c', h')"
      by (auto simp: new_call_def)
    note i1 = Suc.IH [OF 1]
    have q: "nxt h1 \<le> nxt h2 \<and> (\<forall>x. x < nxt h1 \<longrightarrow> objs h2 x = objs h1 x)
        \<and> (\<forall>y. q = Some y \<longrightarrow> y < nxt h2)"
    proof (cases "truthy h1 params")
      case True
      with 3 have "cbnd (copy E n h1 params) (\<lambda>p' h2. Some (Inr (Some p'), h2)) = Some (Inr q, h2)"
        by simp
      from cbnd_Inr [OF this] obtain p' where
        "copy E n h1 params = Some (Inr p', h2)" "q = Some p'"
        by auto
      then show ?thesis using Suc.IH [of h1 params p' h2] by auto
    next
      case False
      with 3 show ?thesis by simp
    qed
    note m = new_expr_Inr [OF 4]
    have f: "f' < nxt h2" using i1 q by simp
    have fresh: "Some (nxt h2) \<notin> set [Some f', q]"
      using f q by auto
    have le: "nxt h \<le> nxt h1" using i1 by simp
    have frame: "objs h' x = objs h x" if "x < nxt h" for x
    proof -
      have "x \<noteq> nxt h2" "x \<noteq> f'" using that le q i1 by auto
      moreover have "q \<noteq> Some x"
      proof
        assume qx: "q = Some x"
        show False
        proof (cases "truthy h1 params")
          case True
          with 3 have "cbnd (copy E n h1 params) (\<lambda>p' h2. Some (Inr (Some p'), h2)) = Some (Inr q, h2)"
            by simp
          from cbnd_Inr [OF this] obtain p' where
            "copy E n h1 params = Some (Inr p', h2)" "q = Some p'"
            by auto
          then have "nxt h1 \<le> x" using Suc.IH [of h1 params p' h2] qx by auto
          then show False using that le by simp
        next
          case False
          with 3 qx show False by simp
        qed
      qed
      ultimately have "objs h' x = objs h2 x"
        using m(3) [of x] by auto
      then show ?thesis using q i1 that le by auto
    qed
    show ?thesis
      using m(1,2,4,5) fresh frame q le v Call_t by auto
  next
    case (Uexpr k a)
    with p have "cbnd (copy E n h a) (\<lambda>a' h1. Some (new_uexpr E n h1 k (Some a'))) = Some (Inr c', h')"
      by simp
    from cbnd_Inr [OF this] obtain a' h1 where
      1: "copy E n h a = Some (Inr a', h1)"
      and 2: "new_expr E n h1 (Uexpr k None) [Some a'] = (Inr c', h')"
      by (auto simp: new_uexpr_def)
    note i = Suc.IH [OF 1]
    note m = new_expr_Inr [OF 2]
    have le: "nxt h \<le> nxt h1" using i by simp
    have frame: "objs h' x = objs h x" if "x < nxt h" for x
    proof -
      have "x \<noteq> nxt h1" "x \<noteq> a'" using that le i by auto
      then have "objs h' x = objs h1 x" using m(3) [of x] by simp
      then show ?thesis using i that by simp
    qed
    have fresh: "Some (nxt h1) \<notin> set [Some a']" using i by simp
    show ?thesis
      using m(1,2,4,5) fresh frame le v Uexpr by auto
  next
    case (Bexpr k a b)
    with p have "cbnd (copy E n h a) (\<lambda>a' h1.
          cbnd (copy E n h1 b) (\<lambda>b' h2. Some (new_bexpr E n h2 k (Some a') (Some b')))) = Some (Inr c', h')"
      by simp
    from cbnd_Inr [OF this] obtain a' h1 where
      1: "copy E n h a = Some (Inr a', h1)"
      and 2: "cbnd (copy E n h1 b) (\<lambda>b' h2. Some (new_bexpr E n h2 k (Some a') (Some b'))) = Some (Inr c', h')"
      by blast
    from cbnd_Inr [OF 2] obtain b' h2 where
      3: "copy E n h1 b = Some (Inr b', h2)"
      and 4: "new_bexpr E n h2 k (Some a') (Some b') = (Inr c', h')"
      by auto
    note i1 = Suc.IH [OF 1]
    note i2 = Suc.IH [OF 3]
    note m = new_bexpr_Inr [OF 4]
    have le: "nxt h \<le> nxt h1" "nxt h1 \<le> nxt h2" using i1 i2 by simp_all
    have frame: "objs h' x = objs h x" if "x < nxt h" for x
    proof -
      have "x \<noteq> nxt h2" "x \<noteq> a'" "x \<noteq> b'" using that le i1 i2 by auto
      then have "objs h' x = objs h2 x" using m(3) [of x] by simp
      then show ?thesis using i1 i2 that le by simp
    qed
    have fresh: "Some (nxt h2) \<notin> {Some a', Some b'}" using i1 i2 le by auto
    show ?thesis
      using m(1,2,4,5) fresh frame le v Bexpr by auto
  next
    case (Ternary_if_t a b c)
    then show ?thesis using p by simp
  qed
qed


subsection \<open>When the constructors and \<open>copy\<close> return\<close>

lemma set_kids: "set (kids vs) = {c. Some c \<in> set vs}"
  by (induction vs rule: kids.induct) auto

lemma setitem_None_ok:
  assumes "py_index (length (operands (node (objs h p)))) k = Some i"
    and "\<not> (is_assign (node (objs h p)) \<and> k = 0)"
  shows "\<exists>h'. setitem E n h p k None = (Inr (), h')"
proof -
  have e: "is_expr (node (objs h p))"
    using py_index_less [OF assms(1)] by (auto simp: is_expr_iff_slots)
  have "setitem E n h p k None = expr_setitem h p k None"
    using assms(2) e by (auto simp: setitem_cases)
  then show ?thesis
    using assms(1) by (simp add: expr_setitem_None)
qed

text \<open>
  The loop of \<open>expr_t.__init__\<close> returns when the operands are distinct nodes without
  parent, none of them the new object, and the first one is assignable where the new
  object is an assignment.
\<close>

lemma init_slots_ok:
  "i + length vs = length (operands (node (objs h s))) \<Longrightarrow>
   (\<forall>v. Some v \<in> set vs \<longrightarrow> parent (objs h v) = None \<and> v \<noteq> s) \<Longrightarrow>
   distinct (kids vs) \<Longrightarrow>
   (is_assign (node (objs h s)) \<and> i = 0 \<longrightarrow>
      (\<exists>v. vs \<noteq> [] \<and> hd vs = Some v \<and> is_assignable (node (objs h v)))) \<Longrightarrow>
   \<exists>h'. init_slots E n h s i vs = (Inr (), h')"
proof (induction vs arbitrary: h i)
  case Nil
  show ?case by simp
next
  case (Cons v vs)
  have key: "py_index (length (operands (node (objs h s)))) (int i) = Some i"
    using Cons.prems(1) by simp
  have "\<exists>h1. setitem E n h s (int i) v = (Inr (), h1)"
  proof (cases v)
    case None
    have "\<not> (is_assign (node (objs h s)) \<and> int i = 0)"
      using Cons.prems(4) None by auto
    from setitem_None_ok [OF key this] show ?thesis
      using None by simp
  next
    case (Some x)
    have p: "parent (objs h x) = None"
      using Cons.prems(2) Some by simp
    have g: "is_assign (node (objs h s)) \<and> int i = 0 \<longrightarrow> is_assignable (node (objs h x))"
      using Cons.prems(4) Some by auto
    from setitem_Some_ok [OF key p g] show ?thesis
      using Some by simp
  qed
  then obtain h1 where s: "setitem E n h s (int i) v = (Inr (), h1)" by blast
  have 1: "Suc i + length vs = length (operands (node (objs h1 s)))"
    using Cons.prems(1) setitem_Inr(3) [OF s] by simp
  have 2: "\<forall>w. Some w \<in> set vs \<longrightarrow> parent (objs h1 w) = None \<and> w \<noteq> s"
  proof (intro allI impI)
    fix w assume w: "Some w \<in> set vs"
    have "v \<noteq> Some w"
    proof
      assume "v = Some w"
      then have "w \<notin> set (kids vs)" using Cons.prems(3) by simp
      then show False using w by (simp add: set_kids)
    qed
    then have "parent (objs h1 w) = parent (objs h w)"
      using setitem_Inr(5) [OF s, of w] by simp
    then show "parent (objs h1 w) = None \<and> w \<noteq> s"
      using Cons.prems(2) w by simp
  qed
  have 3: "distinct (kids vs)"
    using Cons.prems(3) by (cases v) simp_all
  have 4: "is_assign (node (objs h1 s)) \<and> Suc i = 0 \<longrightarrow>
      (\<exists>v. vs \<noteq> [] \<and> hd vs = Some v \<and> is_assignable (node (objs h1 v)))"
    by simp
  from Cons.IH [OF 1 2 3 4] obtain h' where
    "init_slots E n h1 s (Suc i) vs = (Inr (), h')" by blast
  then show ?case using s by simp
qed

lemma new_expr_ok:
  assumes "length vs = length (operands blank)"
    and "\<forall>v. Some v \<in> set vs \<longrightarrow> v < nxt h \<and> parent (objs h v) = None"
    and "distinct (kids vs)"
    and "is_assign blank \<longrightarrow>
           (\<exists>v. vs \<noteq> [] \<and> hd vs = Some v \<and> is_assignable (node (objs h v)))"
  shows "\<exists>h'. new_expr E n h blank vs = (Inr (nxt h), h')"
proof -
  obtain h0 where al: "alloc h blank = (nxt h, h0)"
    by (simp add: alloc_def)
  note a = alloc_props [OF al]
  have o: "objs h0 v = objs h v" if "Some v \<in> set vs" for v
    using a assms(2) that by auto
  have 1: "0 + length vs = length (operands (node (objs h0 (nxt h))))"
    using a assms(1) by simp
  have 2: "\<forall>v. Some v \<in> set vs \<longrightarrow> parent (objs h0 v) = None \<and> v \<noteq> nxt h"
    using assms(2) o by auto
  have 4: "is_assign (node (objs h0 (nxt h))) \<and> (0::nat) = 0 \<longrightarrow>
      (\<exists>v. vs \<noteq> [] \<and> hd vs = Some v \<and> is_assignable (node (objs h0 v)))"
  proof
    assume "is_assign (node (objs h0 (nxt h))) \<and> (0::nat) = 0"
    then have "is_assign blank" using a by simp
    with assms(4) obtain v where v: "vs \<noteq> []" "hd vs = Some v" "is_assignable (node (objs h v))"
      by blast
    then have "Some v \<in> set vs" by (cases vs) auto
    then show "\<exists>v. vs \<noteq> [] \<and> hd vs = Some v \<and> is_assignable (node (objs h0 v))"
      using v o by auto
  qed
  from init_slots_ok [OF 1 2 assms(3) 4] obtain h' where
    "init_slots E n h0 (nxt h) 0 vs = (Inr (), h')" by blast
  then show ?thesis
    using al by (simp add: new_expr_def)
qed

lemma new_bexpr_ok:
  assumes "a < nxt h" "parent (objs h a) = None" "b < nxt h" "parent (objs h b) = None"
    and "a \<noteq> b" and "k = assign_t \<longrightarrow> is_assignable (node (objs h a))"
  shows "\<exists>h'. new_bexpr E n h k (Some a) (Some b) = (Inr (nxt h), h')"
proof -
  have "\<exists>hx. new_expr E n h (Bexpr k None None) [Some a, Some b] = (Inr (nxt h), hx)"
    by (rule new_expr_ok) (use assms in auto)
  then obtain hx where
    e: "new_expr E n h (Bexpr k None None) [Some a, Some b] = (Inr (nxt h), hx)" by blast
  show ?thesis
  proof (cases "k = assign_t")
    case True
    then show ?thesis
      using e assms(6) by (simp add: new_bexpr_def new_assign_def)
  next
    case False
    then show ?thesis
      using e by (simp add: new_bexpr_def)
  qed
qed

text \<open>A node that \<open>copy\<close> clones is an object of the store, and stays one that \<open>copy\<close>
  clones when objects are added to the store.\<close>

lemma clonable_lt: "clonable m h (Some x) \<Longrightarrow> x < nxt h"
  by (cases m) simp_all

lemma clonable_Some: "clonable m h v \<Longrightarrow> \<exists>x. v = Some x"
  by (cases m; cases v) simp_all

lemma clonable_frame:
  "clonable m h v \<Longrightarrow> nxt h \<le> nxt h' \<Longrightarrow> (\<forall>x. x < nxt h \<longrightarrow> objs h' x = objs h x) \<Longrightarrow>
   clonable m h' v"
proof (induction m arbitrary: v)
  case 0
  then show ?case by simp
next
  case (Suc m)
  from Suc.prems(1) obtain r where v: "v = Some r"
    by (auto dest: clonable_Some)
  have r: "r < nxt h" using Suc.prems(1) v by simp
  have o: "objs h' r = objs h r" using Suc.prems(3) r by simp
  have ih: "clonable m h' w" if "clonable m h w" for w
    using Suc.IH [OF that Suc.prems(2,3)] .
  show ?case
  proof (cases "node (objs h r)")
    case (Bexpr k a b)
    have c: "clonable m h a" "clonable m h b"
      using Suc.prems(1) v Bexpr by simp_all
    have g: "case a of None \<Rightarrow> False | Some x \<Rightarrow> is_assignable (node (objs h' x))"
      if "k = assign_t"
    proof -
      from c(1) obtain x where x: "a = Some x" by (auto dest: clonable_Some)
      have "x < nxt h" using c(1) x by (auto dest: clonable_lt)
      then have "objs h' x = objs h x" using Suc.prems(3) by simp
      then show ?thesis using Suc.prems(1) v Bexpr x that by simp
    qed
    show ?thesis
      using v r o Bexpr ih c g Suc.prems(2) by simp
  qed (use Suc.prems v r o ih in auto)
qed

lemma copy_Inr_facts:
  assumes "copy E n h v = Some (Inr c', h')"
  shows "nxt h \<le> c'" and "c' < nxt h'" and "nxt h \<le> nxt h'"
    and "parent (objs h' c') = None"
    and "\<And>x. x < nxt h \<Longrightarrow> objs h' x = objs h x"
    and "\<And>c. v = Some c \<Longrightarrow> is_assignable (node (objs h' c')) = is_assignable (node (objs h c))"
  using copy_Inr [OF assms] by auto

text \<open>\<open>copy\<close> returns a clone of every such node.\<close>

lemma copy_ok: "clonable m h v \<Longrightarrow> \<exists>c' h'. copy E m h v = Some (Inr c', h')"
proof (induction m arbitrary: h v)
  case 0
  then show ?case by simp
next
  case (Suc m)
  from Suc.prems obtain r where v: "v = Some r"
    by (auto dest: clonable_Some)
  note p = Suc.prems [unfolded v]
  show ?case
  proof (cases "node (objs h r)")
    case (Regloc rc which name index)
    then show ?thesis
      using v by (simp add: new_regloc_def alloc_def)
  next
    case (Value_t x)
    then show ?thesis
      using v by (simp add: new_value_def alloc_def)
  next
    case (Var_t w name)
    with p have "clonable m h (Some w)" and nm: "name \<noteq> []" by simp_all
    from Suc.IH [OF this(1)] obtain w' h1 where
      "copy E m h (Some w) = Some (Inr w', h1)" by blast
    then show ?thesis
      using v Var_t nm by (simp add: cbnd_def new_var_def new_named_def alloc_def)
  next
    case (Arg_t w name)
    with p have "clonable m h (Some w)" and nm: "name \<noteq> []" by simp_all
    from Suc.IH [OF this(1)] obtain w' h1 where
      "copy E m h (Some w) = Some (Inr w', h1)" by blast
    then show ?thesis
      using v Arg_t nm by (simp add: cbnd_def new_arg_def new_named_def alloc_def)
  next
    case (Call_t fct params)
    with p have cf: "clonable m h fct" and cp: "params = None \<or> clonable m h params"
      by simp_all
    from Suc.IH [OF cf] obtain f' h1 where
      1: "copy E m h fct = Some (Inr f', h1)" by blast
    note i1 = copy_Inr_facts [OF 1]
    have c: "copy E (Suc m) h v =
        cbnd (if truthy h1 params then
                cbnd (copy E m h1 params) (\<lambda>p' h2. Some (Inr (Some p'), h2))
              else Some (Inr None, h1))
          (\<lambda>p' h2. Some (new_call E m h2 (Some f') p'))"
      using v Call_t 1 by (simp add: cbnd_def)
    show ?thesis
    proof (cases params)
      case None
      have "\<exists>h'. new_expr E m h1 (Call_t None None) [Some f', None] = (Inr (nxt h1), h')"
        by (rule new_expr_ok) (simp_all add: i1(2) i1(4))
      then obtain h' where "new_call E m h1 (Some f') None = (Inr (nxt h1), h')"
        by (auto simp: new_call_def)
      then show ?thesis
        unfolding c using None by (simp add: cbnd_def truthy_def)
    next
      case (Some q)
      have "clonable m h1 params"
      proof (rule clonable_frame [of m h])
        show "clonable m h params" using cp Some by simp
        show "nxt h \<le> nxt h1" by (rule i1(3))
        show "\<forall>x. x < nxt h \<longrightarrow> objs h1 x = objs h x" using i1(5) by simp
      qed
      from Suc.IH [OF this] obtain q' h2 where
        2: "copy E m h1 params = Some (Inr q', h2)" by blast
      note i2 = copy_Inr_facts [OF 2]
      have f: "f' < nxt h2" "parent (objs h2 f') = None" "f' \<noteq> q'"
        using i1(2) i1(4) i2(1) i2(3) i2(5) [of f'] by simp_all
      have "\<exists>h'. new_expr E m h2 (Call_t None None) [Some f', Some q'] = (Inr (nxt h2), h')"
        by (rule new_expr_ok) (simp_all add: f i2(2) i2(4))
      then obtain h' where "new_call E m h2 (Some f') (Some q') = (Inr (nxt h2), h')"
        by (auto simp: new_call_def)
      moreover have "truthy h1 params"
        using Some by (simp add: truthy_def Let_def is_expr_iff_slots)
      ultimately show ?thesis
        unfolding c using 2 by (simp add: cbnd_def)
    qed
  next
    case (Uexpr k a)
    with p have "clonable m h a" by simp
    from Suc.IH [OF this] obtain a' h1 where
      1: "copy E m h a = Some (Inr a', h1)" by blast
    note i1 = copy_Inr_facts [OF 1]
    have "\<exists>h'. new_expr E m h1 (Uexpr k None) [Some a'] = (Inr (nxt h1), h')"
      by (rule new_expr_ok) (simp_all add: i1(2) i1(4))
    then obtain h' where "new_uexpr E m h1 k (Some a') = (Inr (nxt h1), h')"
      by (auto simp: new_uexpr_def)
    then show ?thesis
      using v Uexpr 1 by (simp add: cbnd_def)
  next
    case (Bexpr k a b)
    with p have ca: "clonable m h a" and cb: "clonable m h b"
      and g: "k = assign_t \<longrightarrow> (case a of None \<Rightarrow> False | Some x \<Rightarrow> is_assignable (node (objs h x)))"
      by simp_all
    from Suc.IH [OF ca] obtain a' h1 where
      1: "copy E m h a = Some (Inr a', h1)" by blast
    note i1 = copy_Inr_facts [OF 1]
    have "clonable m h1 b"
    proof (rule clonable_frame [of m h])
      show "clonable m h b" by (rule cb)
      show "nxt h \<le> nxt h1" by (rule i1(3))
      show "\<forall>x. x < nxt h \<longrightarrow> objs h1 x = objs h x" using i1(5) by simp
    qed
    from Suc.IH [OF this] obtain b' h2 where
      2: "copy E m h1 b = Some (Inr b', h2)" by blast
    note i2 = copy_Inr_facts [OF 2]
    have o: "objs h2 a' = objs h1 a'" using i1(2) i2(5) by simp
    have f: "a' < nxt h2" "parent (objs h2 a') = None" "b' < nxt h2" "parent (objs h2 b') = None"
      "a' \<noteq> b'"
      using i1(2) i1(4) i2(1) i2(2) i2(3) i2(4) o by simp_all
    have ga: "k = assign_t \<longrightarrow> is_assignable (node (objs h2 a'))"
    proof
      assume "k = assign_t"
      with g obtain x where x: "a = Some x" "is_assignable (node (objs h x))"
        by (cases a) simp_all
      then show "is_assignable (node (objs h2 a'))"
        using i1(6) [OF x(1)] o by simp
    qed
    from new_bexpr_ok [OF f ga] obtain h' where
      "new_bexpr E m h2 k (Some a') (Some b') = (Inr (nxt h2), h')" by blast
    then show ?thesis
      using v Bexpr 1 2 by (simp add: cbnd_def)
  next
    case (Ternary_if_t a b c)
    then show ?thesis using p by simp
  qed
qed

subsection \<open>Attaching a child\<close>

text \<open>A slot assignment of a node that has a parent fails and writes to no slot.\<close>

lemma setitem_owned:
  assumes "is_expr (node (objs h p))" and "parent (objs h c) \<noteq> None"
  shows "\<exists>e. fst (setitem E n h p k (Some c)) = Inl e"
    and "getitem (snd (setitem E n h p k (Some c))) p k = getitem h p k"
    and "(is_assign (node (objs h p)) \<and> k = 0 \<longrightarrow> is_assignable (node (objs h c)))
           \<Longrightarrow> fst (setitem E n h p k (Some c)) = Inl AssertionError"
proof -
  have "setitem E n h p k (Some c) = (Inl AssertionError, h)
      \<or> setitem E n h p k (Some c) = (Inl AssertionError, set_is_def h c True)
      \<or> (is_assign (node (objs h p)) \<and> k = 0 \<and> \<not> is_assignable (node (objs h c))
          \<and> setitem E n h p k (Some c) = (Inl (assign_assert_fails E n h p (Some c)), h))"
    using assms by (auto simp: setitem_cases expr_setitem_Some)
  then show "\<exists>e. fst (setitem E n h p k (Some c)) = Inl e"
    and "getitem (snd (setitem E n h p k (Some c))) p k = getitem h p k"
    and "(is_assign (node (objs h p)) \<and> k = 0 \<longrightarrow> is_assignable (node (objs h c)))
           \<Longrightarrow> fst (setitem E n h p k (Some c)) = Inl AssertionError"
    by (auto simp: getitem_def)
qed

text \<open>
  C3, as the code has it. Let \<open>p\<close> be a composite and \<open>k\<close> a key. If \<open>c\<close> has a
  parent, \<open>p[k] = c\<close> fails and the slot holds what it held. Let moreover \<open>c\<close> be
  assignable when \<open>p\<close> is an assignment and \<open>k\<close> indexes its first slot. If \<open>c\<close> has
  no parent and \<open>k\<close> indexes a slot of \<open>p\<close>, then \<open>p[k] = c\<close> returns, links \<open>c\<close> to
  \<open>(p, k)\<close> and leaves \<open>c\<close> in the slot. If \<open>c\<close> has a parent, the failure of
  \<open>p[k] = c\<close> is the AssertionError of \<open>expr_t.__setitem__\<close>; and when \<open>c\<close> is a node
  that \<open>copy\<close> clones within \<open>m\<close> nested calls, \<open>c.copy()\<close> returns a clone, and
  attaching the clone to a slot of the owner (an object that existed before the copy)
  returns with the clone linked and in the slot.
\<close>

theorem attach_or_reject:
  assumes "is_expr (node (objs h p))"
  shows "(parent (objs h c) \<noteq> None
          \<longrightarrow> (\<exists>e. fst (setitem E n h p k (Some c)) = Inl e)
            \<and> getitem (snd (setitem E n h p k (Some c))) p k = getitem h p k)
       \<and> ((is_assign (node (objs h p))
              \<and> py_index (length (operands (node (objs h p)))) k = Some 0
            \<longrightarrow> is_assignable (node (objs h c)))
          \<longrightarrow> (parent (objs h c) = None
                  \<and> py_index (length (operands (node (objs h p)))) k \<noteq> None
                \<longrightarrow> fst (setitem E n h p k (Some c)) = Inr ()
                  \<and> parent (objs (snd (setitem E n h p k (Some c))) c) = Some (p, k)
                  \<and> getitem (snd (setitem E n h p k (Some c))) p k = Inr (Some c))
            \<and> (parent (objs h c) \<noteq> None
                \<longrightarrow> fst (setitem E n h p k (Some c)) = Inl AssertionError
                  \<and> (p < nxt h \<and> py_index (length (operands (node (objs h p)))) k \<noteq> None
                       \<and> clonable m h (Some c)
                     \<longrightarrow> (\<exists>c' h1. copy E m h (Some c) = Some (Inr c', h1)
                            \<and> fst (setitem E n h1 p k (Some c')) = Inr ()
                            \<and> parent (objs (snd (setitem E n h1 p k (Some c'))) c') = Some (p, k)
                            \<and> getitem (snd (setitem E n h1 p k (Some c'))) p k
                                = Inr (Some c')))))"
proof (intro conjI impI)
  assume n: "parent (objs h c) \<noteq> None"
  show "\<exists>e. fst (setitem E n h p k (Some c)) = Inl e"
    by (rule setitem_owned(1) [OF assms n])
  show "getitem (snd (setitem E n h p k (Some c))) p k = getitem h p k"
    by (rule setitem_owned(2) [OF assms n])
next
  assume g: "is_assign (node (objs h p))
             \<and> py_index (length (operands (node (objs h p)))) k = Some 0
           \<longrightarrow> is_assignable (node (objs h c))"
    and n: "parent (objs h c) = None
            \<and> py_index (length (operands (node (objs h p)))) k \<noteq> None"
  from n obtain i where i: "py_index (length (operands (node (objs h p)))) k = Some i"
    by auto
  have g0: "is_assign (node (objs h p)) \<and> k = 0 \<longrightarrow> is_assignable (node (objs h c))"
    using g i by (auto split: if_splits)
  from setitem_Some_ok [OF i _ g0] n obtain h' where
    s: "setitem E n h p k (Some c) = (Inr (), h')" by blast
  show "fst (setitem E n h p k (Some c)) = Inr ()"
    and "parent (objs (snd (setitem E n h p k (Some c))) c) = Some (p, k)"
    and "getitem (snd (setitem E n h p k (Some c))) p k = Inr (Some c)"
    using s setitem_Inr(2) [OF s] setitem_Inr(5) [OF s, of c] by simp_all
next
  assume g: "is_assign (node (objs h p))
             \<and> py_index (length (operands (node (objs h p)))) k = Some 0
           \<longrightarrow> is_assignable (node (objs h c))"
    and n: "parent (objs h c) \<noteq> None"
  have g0: "is_assign (node (objs h p)) \<and> k = 0 \<longrightarrow> is_assignable (node (objs h c))"
    using g by (auto simp: is_assign_slots)
  show "fst (setitem E n h p k (Some c)) = Inl AssertionError"
    by (rule setitem_owned(3) [OF assms n g0])
next
  assume g: "is_assign (node (objs h p))
             \<and> py_index (length (operands (node (objs h p)))) k = Some 0
           \<longrightarrow> is_assignable (node (objs h c))"
    and n: "parent (objs h c) \<noteq> None"
    and c: "p < nxt h \<and> py_index (length (operands (node (objs h p)))) k \<noteq> None
            \<and> clonable m h (Some c)"
  from c obtain i where i: "py_index (length (operands (node (objs h p)))) k = Some i"
    by auto
  from c copy_ok [of m h "Some c" E] obtain c' h1 where
    cp: "copy E m h (Some c) = Some (Inr c', h1)" by blast
  note f = copy_Inr_facts [OF cp]
  have o: "objs h1 p = objs h p" using f(5) c by simp
  have i1: "py_index (length (operands (node (objs h1 p)))) k = Some i"
    using i o by simp
  have a: "is_assign (node (objs h1 p)) \<and> k = 0 \<longrightarrow> is_assignable (node (objs h1 c'))"
    using g i o f(6) [of c] by (auto split: if_splits)
  from setitem_Some_ok [OF i1 f(4) a] obtain h' where
    s: "setitem E n h1 p k (Some c') = (Inr (), h')" by blast
  have "fst (setitem E n h1 p k (Some c')) = Inr ()
      \<and> parent (objs (snd (setitem E n h1 p k (Some c'))) c') = Some (p, k)
      \<and> getitem (snd (setitem E n h1 p k (Some c'))) p k = Inr (Some c')"
    using s setitem_Inr(2) [OF s] setitem_Inr(5) [OF s, of c'] by simp
  then show "\<exists>c' h1. copy E m h (Some c) = Some (Inr c', h1)
                \<and> fst (setitem E n h1 p k (Some c')) = Inr ()
                \<and> parent (objs (snd (setitem E n h1 p k (Some c'))) c') = Some (p, k)
                \<and> getitem (snd (setitem E n h1 p k (Some c'))) p k = Inr (Some c')"
    using cp by blast
qed

lemma scene_call_objs:
  "objs scene_call 0 = \<lparr>parent = Some (1, 0), is_def = False, node = Value_t (Some 4096)\<rparr>"
  "objs scene_call (Suc 0) = \<lparr>parent = None, is_def = False, node = Call_t (Some 0) None\<rparr>"
  "nxt scene_call = 2"
  by (simp_all add: scene_call_def build_defs)

lemma scene_attach_objs:
  "objs scene_attach (Suc 0) = \<lparr>parent = None, is_def = False, node = Call_t (Some 0) None\<rparr>"
  "objs scene_attach 2 = \<lparr>parent = Some (3, 0), is_def = False, node = Regloc regloc_t 0 None None\<rparr>"
  "objs scene_attach 3 = \<lparr>parent = None, is_def = False, node = Uexpr deref_t (Some 2)\<rparr>"
  "nxt scene_attach = 4"
  using scene_call_objs
  by (simp_all add: scene_attach_def new_regloc_def new_uexpr_def new_expr_def alloc_def
      setitem_cases expr_setitem_Some set_parent_def set_node_def)

text \<open>
  On the call \<open>c\<close> with an empty second slot: attaching \<open>d\<close>, which has no parent,
  succeeds; attaching \<open>r\<close>, which belongs to \<open>d\<close>, is rejected, and attaching
  \<open>r.copy()\<close>, the new object 4, succeeds.
\<close>

theorem attach_or_reject_witness:
  "parent (objs scene_attach 3) = None
   \<and> fst (setitem env0 10 scene_attach 1 1 (Some 3)) = Inr ()
   \<and> parent (objs (snd (setitem env0 10 scene_attach 1 1 (Some 3))) 3) = Some (1, 1)
   \<and> getitem (snd (setitem env0 10 scene_attach 1 1 (Some 3))) 1 1 = Inr (Some 3)
   \<and> parent (objs scene_attach 2) = Some (3, 0)
   \<and> fst (setitem env0 10 scene_attach 1 1 (Some 2)) = Inl AssertionError
   \<and> clonable 1 scene_attach (Some 2)
   \<and> fst (the (copy env0 1 scene_attach (Some 2))) = Inr 4
   \<and> fst (setitem env0 10 (snd (the (copy env0 1 scene_attach (Some 2)))) 1 1 (Some 4)) = Inr ()
   \<and> getitem (snd (setitem env0 10 (snd (the (copy env0 1 scene_attach (Some 2)))) 1 1 (Some 4)))
        1 1 = Inr (Some 4)"
proof -
  have e: "is_expr (node (objs scene_attach 1))"
    and k: "py_index (length (operands (node (objs scene_attach 1)))) 1 = Some 1"
    and a: "\<not> is_assign (node (objs scene_attach 1))"
    and p: "parent (objs scene_attach 3) = None" "parent (objs scene_attach 2) = Some (3, 0)"
      "1 < nxt scene_attach"
    and cl: "clonable (Suc 0) scene_attach (Some 2)"
    by (simp_all add: scene_attach_objs)
  define h1 where "h1 = snd (the (copy env0 1 scene_attach (Some 2)))"
  have c: "copy env0 1 scene_attach (Some 2) = Some (Inr 4, h1)"
    by (simp add: h1_def scene_attach_objs new_regloc_def alloc_def)
  have t: "the (copy env0 1 scene_attach (Some 2)) = (Inr 4, h1)"
    unfolding c by simp
  have 1: "fst (setitem env0 10 scene_attach 1 1 (Some 3)) = Inr ()
        \<and> parent (objs (snd (setitem env0 10 scene_attach 1 1 (Some 3))) 3) = Some (1, 1)
        \<and> getitem (snd (setitem env0 10 scene_attach 1 1 (Some 3))) 1 1 = Inr (Some 3)"
    using attach_or_reject [OF e, of 3 env0 10 1 1] k a p(1) by simp
  have 2: "fst (setitem env0 10 scene_attach 1 1 (Some 2)) = Inl AssertionError
        \<and> (\<exists>c' h'. copy env0 1 scene_attach (Some 2) = Some (Inr c', h')
             \<and> fst (setitem env0 10 h' 1 1 (Some c')) = Inr ()
             \<and> getitem (snd (setitem env0 10 h' 1 1 (Some c'))) 1 1 = Inr (Some c'))"
    using attach_or_reject [OF e, of 2 env0 10 1 1] k a p(2) p(3) cl by auto
  then have 3: "fst (setitem env0 10 h1 1 1 (Some 4)) = Inr ()
        \<and> getitem (snd (setitem env0 10 h1 1 1 (Some 4))) 1 1 = Inr (Some 4)"
    unfolding c by auto
  show ?thesis
    unfolding t using p cl 1 2 3 by simp
qed

text \<open>
  Without the condition on assignments the claim fails: the literal 5 has no parent,
  and attaching it to slot 0 of the assignment \<open>a\<close> stops at the assertion of
  \<open>assign_t.__setitem__\<close>, the target staying in the slot.
\<close>

theorem attach_literal_target_counterexample:
  "parent (objs scene_assign 3) = None \<and> node (objs scene_assign 3) = Value_t (Some 5)
   \<and> setitem env0 10 scene_assign 2 0 (Some 3) = (Inl AssertionError, scene_assign)
   \<and> getitem scene_assign 2 0 = Inr (Some 0)"
  using scene_assign_str [of 8]
  by (simp add: scene_assign_objs setitem_cases getitem_def assign_assert_fails_def)

subsection \<open>Traversal\<close>

lemma truthy_Some [simp]: "truthy h (Some c)"
  by (simp add: truthy_def Let_def is_expr_iff_slots)

lemma truthy_None [simp]: "\<not> truthy h None"
  by (simp add: truthy_def)

lemma kids_append: "kids (us @ vs) = kids us @ kids vs"
  by (induction us rule: kids.induct) simp_all

lemma iter_slots_Some_iff:
  "iter_slots f h vs = Some zs \<longleftrightarrow>
     (\<forall>c \<in> set (kids vs). f c \<noteq> None) \<and> zs = concat (map (\<lambda>c. the (f c)) (kids vs))"
proof (induction vs arbitrary: zs rule: kids.induct)
  case 1
  show ?case by auto
next
  case (2 vs)
  then show ?case by simp
next
  case (3 c vs)
  show ?case
  proof (cases "f c")
    case None
    then show ?thesis by simp
  next
    case (Some ys)
    show ?thesis
    proof (cases "iter_slots f h vs")
      case None
      then show ?thesis using Some 3 [of "concat (map (\<lambda>c. the (f c)) (kids vs))"] by auto
    next
      case (Some zs')
      then show ?thesis using \<open>f c = Some ys\<close> 3 [of zs'] by auto
    qed
  qed
qed

lemma iter_slots_None_iff:
  "iter_slots f h vs = None \<longleftrightarrow> (\<exists>c \<in> set (kids vs). f c = None)"
proof -
  have "iter_slots f h vs \<noteq> None \<longleftrightarrow> (\<forall>c \<in> set (kids vs). f c \<noteq> None)"
    using iter_slots_Some_iff [of f h vs] by auto
  then show ?thesis by auto
qed

lemma leaf_no_operands: "\<not> is_expr nd \<Longrightarrow> operands nd = []"
  by (cases nd) simp_all

text \<open>One level of the generator: the enumerations of the operands, in slot order, then the node.\<close>

lemma iteroperands_Suc:
  "iteroperands (Suc n) h r = Some xs \<longleftrightarrow>
     (\<forall>c. child h r c \<longrightarrow> iteroperands n h c \<noteq> None)
     \<and> xs = concat (map (\<lambda>c. the (iteroperands n h c)) (kids (operands (node (objs h r))))) @ [r]"
proof (cases "is_expr (node (objs h r))")
  case True
  show ?thesis
  proof (cases "iter_slots (iteroperands n h) h (operands (node (objs h r)))")
    case None
    then have "\<not> (\<forall>c. child h r c \<longrightarrow> iteroperands n h c \<noteq> None)"
      by (auto simp: iter_slots_None_iff set_kids child_def)
    then show ?thesis using True None by (simp add: Let_def)
  next
    case (Some zs)
    then have "(\<forall>c. child h r c \<longrightarrow> iteroperands n h c \<noteq> None)
       \<and> zs = concat (map (\<lambda>c. the (iteroperands n h c)) (kids (operands (node (objs h r)))))"
      by (simp add: iter_slots_Some_iff set_kids child_def)
    then show ?thesis using True Some by (auto simp: Let_def)
  qed
next
  case False
  then have "operands (node (objs h r)) = []" by (rule leaf_no_operands)
  then show ?thesis using False by (auto simp: Let_def child_def)
qed

declare iteroperands.simps(2) [simp del]

lemma iteroperands_mono:
  "iteroperands n h r = Some xs \<Longrightarrow> iteroperands (Suc n) h r = Some xs"
proof (induction n arbitrary: r xs)
  case 0
  then show ?case by simp
next
  case (Suc n)
  from Suc.prems have d: "\<And>c. child h r c \<Longrightarrow> iteroperands n h c \<noteq> None"
    and xs: "xs = concat (map (\<lambda>c. the (iteroperands n h c)) (kids (operands (node (objs h r))))) @ [r]"
    by (simp_all add: iteroperands_Suc)
  have e: "iteroperands (Suc n) h c = iteroperands n h c" if "child h r c" for c
  proof -
    from d [OF that] obtain ys where "iteroperands n h c = Some ys" by auto
    then show ?thesis using Suc.IH by simp
  qed
  have m: "map (\<lambda>c. the (iteroperands (Suc n) h c)) (kids (operands (node (objs h r))))
      = map (\<lambda>c. the (iteroperands n h c)) (kids (operands (node (objs h r))))"
    by (rule map_cong) (simp_all add: set_kids e child_def)
  have "\<forall>c. child h r c \<longrightarrow> iteroperands (Suc n) h c \<noteq> None"
    using d e by simp
  then show ?case
    unfolding iteroperands_Suc [of "Suc n"] m using xs by simp
qed

lemma iteroperands_mono_le:
  "n \<le> m \<Longrightarrow> iteroperands n h r = Some xs \<Longrightarrow> iteroperands m h r = Some xs"
  by (induction m) (auto simp: le_Suc_eq iteroperands_mono)

subsubsection \<open>Subtrees\<close>

lemma subtree_trans: "c \<in> subtree h r \<Longrightarrow> x \<in> subtree h c \<Longrightarrow> x \<in> subtree h r"
proof -
  assume c: "c \<in> subtree h r" and x: "x \<in> subtree h c"
  from x show ?thesis
  proof (induction rule: subtree.induct)
    case root
    show ?case by (rule c)
  next
    case (step e d)
    then show ?case by (auto intro: subtree.step)
  qed
qed

lemma subtree_child: "child h r c \<Longrightarrow> x \<in> subtree h c \<Longrightarrow> x \<in> subtree h r"
  by (rule subtree_trans [of c]) (auto intro: subtree.intros)

lemma subtree_unfold:
  "x \<in> subtree h r \<longleftrightarrow> x = r \<or> (\<exists>c. child h r c \<and> x \<in> subtree h c)"
proof
  assume "x \<in> subtree h r"
  then show "x = r \<or> (\<exists>c. child h r c \<and> x \<in> subtree h c)"
  proof (induction rule: subtree.induct)
    case root
    then show ?case by simp
  next
    case (step e c)
    from step.IH show ?case
    proof
      assume "e = r"
      then show ?thesis using step.hyps(2) by (auto intro: subtree.root)
    next
      assume "\<exists>c'. child h r c' \<and> e \<in> subtree h c'"
      then show ?thesis using step.hyps(2) by (auto intro: subtree.step)
    qed
  qed
next
  assume "x = r \<or> (\<exists>c. child h r c \<and> x \<in> subtree h c)"
  then show "x \<in> subtree h r"
    by (auto intro: subtree.root subtree_child)
qed

lemma subtree_owner:
  "x \<in> subtree h r \<Longrightarrow> x = r \<or> (\<exists>e \<in> subtree h r. child h e x)"
  by (erule subtree.cases) auto

lemma child_slot: "child h e c \<longleftrightarrow> (\<exists>k. getitem h e (int k) = Inr (Some c))"
  by (auto simp: child_def getitem_nat in_set_conv_nth)

lemma tree_below_child: "tree_below h rank r \<Longrightarrow> child h r c \<Longrightarrow> tree_below h rank c"
  unfolding tree_below_def using subtree_child [of h r c] by blast

lemma tree_rank_le: "tree_below h rank r \<Longrightarrow> x \<in> subtree h r \<Longrightarrow> rank x \<le> rank r"
proof -
  assume t: "tree_below h rank r" and x: "x \<in> subtree h r"
  from x show ?thesis
  proof (induction rule: subtree.induct)
    case root
    show ?case by simp
  next
    case (step e c)
    then have "rank c < rank e" using t by (auto simp: tree_below_def)
    then show ?case using step by simp
  qed
qed

lemma tree_owner_unique:
  "tree_below h rank r \<Longrightarrow> e \<in> subtree h r \<Longrightarrow> e' \<in> subtree h r \<Longrightarrow>
   child h e c \<Longrightarrow> child h e' c \<Longrightarrow> e = e'"
  unfolding tree_below_def child_slot by blast

text \<open>Two subtrees of one tree that share a node are nested.\<close>

lemma tree_nested:
  assumes t: "tree_below h rank r" and a: "a \<in> subtree h r" and b: "b \<in> subtree h r"
  shows "x \<in> subtree h a \<Longrightarrow> x \<in> subtree h b \<Longrightarrow> a \<in> subtree h b \<or> b \<in> subtree h a"
proof (induction rule: subtree.induct)
  case root
  then show ?case by simp
next
  case (step e c)
  from subtree_owner [OF step.prems] show ?case
  proof
    assume "c = b"
    then show ?thesis using step.hyps(1,2) by (auto intro: subtree.step)
  next
    assume "\<exists>e' \<in> subtree h b. child h e' c"
    then obtain e' where e': "e' \<in> subtree h b" "child h e' c" by blast
    have "e \<in> subtree h r" "e' \<in> subtree h r"
      using a b step.hyps(1) e'(1) by (auto intro: subtree_trans)
    then have "e = e'"
      using tree_owner_unique [OF t _ _ step.hyps(2) e'(2)] by simp
    then show ?thesis using step.IH e'(1) by simp
  qed
qed

lemma tree_kids_distinct:
  assumes "tree_below h rank r"
  shows "distinct (kids (operands (node (objs h r))))"
proof -
  let ?vs = "operands (node (objs h r))"
  have u: "i = j" if "i < length ?vs" "j < length ?vs" "?vs ! i = Some c" "?vs ! j = Some c"
    for i j c
  proof -
    have "getitem h r (int i) = Inr (Some c)" "getitem h r (int j) = Inr (Some c)"
      using that by (simp_all add: getitem_nat)
    moreover have "r \<in> subtree h r" by (rule subtree.root)
    ultimately show ?thesis using assms unfolding tree_below_def by blast
  qed
  have "distinct (kids vs)"
    if "\<And>i j c. i < length vs \<Longrightarrow> j < length vs \<Longrightarrow> vs ! i = Some c \<Longrightarrow> vs ! j = Some c \<Longrightarrow> i = j"
    for vs :: "ref option list"
    using that
  proof (induction vs rule: kids.induct)
    case 1
    show ?case by simp
  next
    case (2 vs)
    have "distinct (kids vs)"
    proof (rule 2(1))
      fix i j c
      assume "i < length vs" "j < length vs" "vs ! i = Some c" "vs ! j = Some c"
      then show "i = j" using 2(2) [of "Suc i" "Suc j" c] by simp
    qed
    then show ?case by simp
  next
    case (3 c vs)
    have d: "distinct (kids vs)"
    proof (rule 3(1))
      fix i j c'
      assume "i < length vs" "j < length vs" "vs ! i = Some c'" "vs ! j = Some c'"
      then show "i = j" using 3(2) [of "Suc i" "Suc j" c'] by simp
    qed
    have "c \<notin> set (kids vs)"
    proof
      assume "c \<in> set (kids vs)"
      then have "Some c \<in> set vs" by (simp add: set_kids)
      then obtain j where "j < length vs" "vs ! j = Some c" by (auto simp: in_set_conv_nth)
      then show False using 3(2) [of 0 "Suc j" c] by simp
    qed
    then show ?case using d by simp
  qed
  then show ?thesis using u by blast
qed

lemma tree_kids_disjoint:
  assumes t: "tree_below h rank r" and c: "child h r c" "child h r c'" and n: "c \<noteq> c'"
  shows "subtree h c \<inter> subtree h c' = {}"
proof (rule ccontr)
  assume "subtree h c \<inter> subtree h c' \<noteq> {}"
  then obtain x where x: "x \<in> subtree h c" "x \<in> subtree h c'" by blast
  have in_r: "c \<in> subtree h r" "c' \<in> subtree h r"
    using c by (auto intro: subtree.intros)
  have up: False if "a \<in> subtree h b" "child h r a" "child h r b" "a \<noteq> b" for a b
  proof -
    from subtree_owner [OF that(1)] that(4) obtain e where
      e: "e \<in> subtree h b" "child h e a" by blast
    have "e \<in> subtree h r" using e(1) that(3) by (auto intro: subtree_child)
    then have "e = r"
      using tree_owner_unique [OF t _ subtree.root e(2) that(2)] by simp
    then have "rank r \<le> rank b"
      using tree_rank_le [OF tree_below_child [OF t that(3)]] e(1) by simp
    moreover have "rank b < rank r"
      using t that(3) by (auto simp: tree_below_def intro: subtree.root)
    ultimately show False by simp
  qed
  from tree_nested [OF t in_r x] show False
    using up [of c c'] up [of c' c] c n by auto
qed

subsubsection \<open>Order\<close>

lemma dropWhile_first: "a \<notin> set us \<Longrightarrow> dropWhile (\<lambda>x. x \<noteq> a) (us @ a # vs) = a # vs"
  by (induction us) auto

lemma before_split:
  assumes "xs = us @ a # vs @ b # ws"
  shows "before xs a b"
proof (cases "a \<in> set us")
  case False
  then show ?thesis
    by (simp add: before_def assms dropWhile_first)
next
  case True
  then obtain p q where us: "us = p @ a # q" "a \<notin> set p"
    by (auto dest: split_list_first)
  then show ?thesis
    by (simp add: before_def assms dropWhile_first)
qed

lemma before_embed: "before ys a b \<Longrightarrow> a \<in> set ys \<Longrightarrow> before (us @ ys @ ws) a b"
proof -
  assume b: "before ys a b" and a: "a \<in> set ys"
  from a obtain p q where ys: "ys = p @ a # q" "a \<notin> set p"
    by (auto dest: split_list_first)
  with b have "b \<in> set q"
    by (simp add: before_def dropWhile_first)
  then obtain s t where "q = s @ b # t" by (auto dest: split_list)
  then have "us @ ys @ ws = (us @ p) @ a # s @ b # (t @ ws)"
    using ys by simp
  then show ?thesis by (rule before_split)
qed

lemma before_segments:
  "a \<in> set ys \<Longrightarrow> b \<in> set zs \<Longrightarrow> before (us @ ys @ vs @ zs @ ws) a b"
proof -
  assume "a \<in> set ys" "b \<in> set zs"
  then obtain p q s t where "ys = p @ a # q" "zs = s @ b # t"
    by (auto dest!: split_list)
  then have "us @ ys @ vs @ zs @ ws = (us @ p) @ a # (q @ vs @ s) @ b # (t @ ws)"
    by simp
  then show ?thesis by (rule before_split)
qed

lemma concat_map_split:
  "c \<in> set cs \<Longrightarrow> \<exists>us ws. concat (map g cs) = us @ g c @ ws"
proof -
  assume "c \<in> set cs"
  then obtain p q where "cs = p @ c # q" by (auto dest: split_list)
  then have "concat (map g cs) = concat (map g p) @ g c @ concat (map g q)" by simp
  then show ?thesis by blast
qed

lemma kids_slots_split:
  assumes "i < j" "j < length vs" "vs ! i = Some c1" "vs ! j = Some c2"
  shows "\<exists>p q s. kids vs = p @ c1 # q @ c2 # s"
proof -
  have vs: "vs = take i vs @ Some c1 # (take (j - Suc i) (drop (Suc i) vs)) @ Some c2 # drop (Suc j) vs"
  proof -
    have 1: "vs = take i vs @ Some c1 # drop (Suc i) vs"
      using assms by (metis id_take_nth_drop less_trans)
    have "j - Suc i < length (drop (Suc i) vs)" using assms by simp
    moreover have "drop (Suc i) vs ! (j - Suc i) = Some c2" using assms by simp
    ultimately have 2: "drop (Suc i) vs
        = take (j - Suc i) (drop (Suc i) vs) @ Some c2 # drop (Suc (j - Suc i)) (drop (Suc i) vs)"
      by (metis id_take_nth_drop)
    have 3: "drop (Suc (j - Suc i)) (drop (Suc i) vs) = drop (Suc j) vs"
      using assms by simp
    show ?thesis using 1 2 3 by metis
  qed
  have "kids vs = kids (take i vs) @ c1 # kids (take (j - Suc i) (drop (Suc i) vs))
          @ c2 # kids (drop (Suc j) vs)"
    by (subst vs) (simp add: kids_append)
  then show ?thesis by blast
qed

lemma distinct_concat_map:
  "distinct cs \<Longrightarrow> (\<And>c. c \<in> set cs \<Longrightarrow> distinct (g c)) \<Longrightarrow>
   (\<And>c c'. c \<in> set cs \<Longrightarrow> c' \<in> set cs \<Longrightarrow> c \<noteq> c' \<Longrightarrow> set (g c) \<inter> set (g c') = {}) \<Longrightarrow>
   distinct (concat (map g cs))"
proof (induction cs)
  case Nil
  then show ?case by simp
next
  case (Cons c cs)
  have "distinct (concat (map g cs))"
    by (rule Cons.IH) (use Cons.prems in auto)
  moreover have "distinct (g c)" using Cons.prems(2) by simp
  moreover have "set (g c) \<inter> set (g c') = {}" if "c' \<in> set cs" for c'
    using Cons.prems(1) Cons.prems(3) [of c c'] that by auto
  ultimately show ?case by auto
qed

subsubsection \<open>The enumeration of a tree\<close>

lemma iteroperands_tree:
  "tree_below h rank r \<Longrightarrow> iteroperands n h r = Some xs \<Longrightarrow>
     set xs = subtree h r \<and> distinct xs \<and> xs \<noteq> [] \<and> last xs = r
     \<and> (\<forall>e c. e \<in> subtree h r \<and> child h e c \<longrightarrow> before xs c e)
     \<and> (\<forall>e i j c1 c2 a b. e \<in> subtree h r \<and> i < j
            \<and> getitem h e (int i) = Inr (Some c1) \<and> getitem h e (int j) = Inr (Some c2)
            \<and> a \<in> subtree h c1 \<and> b \<in> subtree h c2 \<longrightarrow> before xs a b)"
proof (induction n arbitrary: r xs)
  case 0
  then show ?case by simp
next
  case (Suc n)
  note t = Suc.prems(1)
  define cs where "cs = kids (operands (node (objs h r)))"
  define g where "g = (\<lambda>c. the (iteroperands n h c))"
  from Suc.prems(2) have d: "\<And>c. child h r c \<Longrightarrow> iteroperands n h c \<noteq> None"
    and xs: "xs = concat (map g cs) @ [r]"
    by (simp_all add: iteroperands_Suc cs_def g_def)
  have cs: "c \<in> set cs \<longleftrightarrow> child h r c" for c
    by (simp add: cs_def set_kids child_def)
  have gc: "iteroperands n h c = Some (g c)" if "child h r c" for c
    using d [OF that] by (auto simp: g_def)
  note ih = Suc.IH [OF tree_below_child [OF t] gc]
  have set_g: "set (g c) = subtree h c" if "child h r c" for c
    using ih [OF that that] by simp
  have set_cat: "set (concat (map g cs)) = {x. \<exists>c. child h r c \<and> x \<in> subtree h c}"
    using set_g by (auto simp: cs)
  have 1: "set xs = subtree h r"
    unfolding xs using set_cat subtree_unfold [of _ h r] by auto
  have r_notin: "r \<notin> set (concat (map g cs))"
  proof
    assume "r \<in> set (concat (map g cs))"
    then obtain c where c: "child h r c" "r \<in> subtree h c"
      using set_cat by auto
    have "rank r \<le> rank c"
      using tree_rank_le [OF tree_below_child [OF t c(1)] c(2)] .
    moreover have "rank c < rank r"
      using t c(1) by (auto simp: tree_below_def intro: subtree.root)
    ultimately show False by simp
  qed
  have "distinct (concat (map g cs))"
  proof (rule distinct_concat_map)
    show "distinct cs" unfolding cs_def using t by (rule tree_kids_distinct)
  next
    fix c assume "c \<in> set cs"
    then have "child h r c" by (simp add: cs)
    then show "distinct (g c)" using ih by simp
  next
    fix c c' assume "c \<in> set cs" "c' \<in> set cs" "c \<noteq> c'"
    then show "set (g c) \<inter> set (g c') = {}"
      using tree_kids_disjoint [OF t, of c c'] set_g by (simp add: cs)
  qed
  then have 2: "distinct xs" using r_notin by (simp add: xs)
  have 3: "xs \<noteq> []" "last xs = r" by (simp_all add: xs)
  have 4: "before xs c' e" if e: "e \<in> subtree h r" and c': "child h e c'" for e c'
  proof -
    from e have "e = r \<or> (\<exists>c. child h r c \<and> e \<in> subtree h c)"
      by (simp add: subtree_unfold [of e h r])
    then show ?thesis
    proof
      assume er: "e = r"
      then have "c' \<in> set (g c')" using set_g [of c'] c' by (auto intro: subtree.root)
      then have "c' \<in> set (concat (map g cs))" using c' er by (auto simp: cs)
      then have "\<exists>p q. concat (map g cs) = p @ c' # q" by (rule split_list)
      then obtain p q where "concat (map g cs) = p @ c' # q" by blast
      then have "xs = p @ c' # q @ r # []" by (simp add: xs)
      then show ?thesis unfolding er by (rule before_split)
    next
      assume "\<exists>c. child h r c \<and> e \<in> subtree h c"
      then obtain c where c: "child h r c" "e \<in> subtree h c" by blast
      have b: "before (g c) c' e" using ih [OF c(1) c(1)] c(2) c' by blast
      have m: "c' \<in> set (g c)"
        using set_g [OF c(1)] c(2) c' by (auto intro: subtree.step)
      from concat_map_split [of c cs g] c(1) obtain us ws where
        "concat (map g cs) = us @ g c @ ws" by (auto simp: cs)
      then have "xs = us @ g c @ (ws @ [r])" by (simp add: xs)
      then show ?thesis using before_embed [OF b m] by simp
    qed
  qed
  have 5: "before xs a b"
    if e: "e \<in> subtree h r" and ij: "i < j"
      and s1: "getitem h e (int i) = Inr (Some c1)" and s2: "getitem h e (int j) = Inr (Some c2)"
      and a: "a \<in> subtree h c1" and b: "b \<in> subtree h c2" for e i j c1 c2 a b
  proof -
    from e have "e = r \<or> (\<exists>c. child h r c \<and> e \<in> subtree h c)"
      by (simp add: subtree_unfold [of e h r])
    then show ?thesis
    proof
      assume er: "e = r"
      have ch: "child h r c1" "child h r c2"
        using s1 s2 er by (auto simp: child_slot)
      from kids_slots_split [of i j "operands (node (objs h r))" c1 c2] ij s1 s2 er
      obtain p q s where "cs = p @ c1 # q @ c2 # s"
        by (auto simp: cs_def getitem_nat)
      then have "xs = concat (map g p) @ g c1 @ concat (map g q) @ g c2 @ (concat (map g s) @ [r])"
        by (simp add: xs)
      moreover have "a \<in> set (g c1)" "b \<in> set (g c2)"
        using a b set_g ch by simp_all
      ultimately show ?thesis using before_segments [of a "g c1" b "g c2"] by simp
    next
      assume "\<exists>c. child h r c \<and> e \<in> subtree h c"
      then obtain c where c: "child h r c" "e \<in> subtree h c" by blast
      have bf: "before (g c) a b" using ih [OF c(1) c(1)] c(2) ij s1 s2 a b by blast
      have "child h e c1" using s1 by (auto simp: child_slot)
      then have "c1 \<in> subtree h c"
        using c(2) by (rule subtree.step [rotated])
      then have m: "a \<in> set (g c)"
        using set_g [OF c(1)] a by (auto intro: subtree_trans)
      from concat_map_split [of c cs g] c(1) obtain us ws where
        "concat (map g cs) = us @ g c @ ws" by (auto simp: cs)
      then have "xs = us @ g c @ (ws @ [r])" by (simp add: xs)
      then show ?thesis using before_embed [OF bf m] by simp
    qed
  qed
  show ?case using 1 2 3 4 5 by blast
qed

text \<open>The generator of a tree comes to its end within the depth of the tree.\<close>

lemma iteroperands_terminates:
  "tree_below h rank r \<Longrightarrow> rank r < n \<Longrightarrow> iteroperands n h r \<noteq> None"
proof (induction n arbitrary: r)
  case 0
  then show ?case by simp
next
  case (Suc n)
  have "iteroperands n h c \<noteq> None" if "child h r c" for c
  proof -
    have "rank c < rank r"
      using Suc.prems(1) that by (auto simp: tree_below_def intro: subtree.root)
    then have "rank c < n" using Suc.prems(2) by simp
    then show ?thesis
      using Suc.IH [OF tree_below_child [OF Suc.prems(1) that]] by simp
  qed
  then have "iteroperands (Suc n) h r
      = Some (concat (map (\<lambda>c. the (iteroperands n h c)) (kids (operands (node (objs h r))))) @ [r])"
    by (subst iteroperands_Suc) simp
  then show ?case by simp
qed

text \<open>
  C7. Let the subtree of \<open>r\<close> be a tree (no node in two slots, no operand chain coming
  back) and let the number of nested calls allowed exceed the rank of \<open>r\<close>. Then
  \<open>r.iteroperands()\<close> comes to an end; the objects it yields are exactly the nodes of
  the subtree of \<open>r\<close>, reached through slots that are not empty, each yielded once;
  \<open>r\<close> is the last; every operand is yielded before its owner; for two slots of one
  node, counted from 0, everything below the earlier slot is yielded before everything
  below the later one; and every call, whatever depth it is allowed beyond the rank,
  yields the same sequence.
\<close>

theorem iteroperands_postorder:
  assumes "tree_below h rank r" and "rank r < n"
  shows "\<exists>xs. iteroperands n h r = Some xs
     \<and> set xs = subtree h r \<and> distinct xs \<and> last xs = r
     \<and> (\<forall>e c. e \<in> subtree h r \<and> child h e c \<longrightarrow> before xs c e)
     \<and> (\<forall>e i j c1 c2 a b. e \<in> subtree h r \<and> i < j
            \<and> getitem h e (int i) = Inr (Some c1) \<and> getitem h e (int j) = Inr (Some c2)
            \<and> a \<in> subtree h c1 \<and> b \<in> subtree h c2 \<longrightarrow> before xs a b)
     \<and> (\<forall>m. rank r < m \<longrightarrow> iteroperands m h r = Some xs)"
proof -
  from iteroperands_terminates [OF assms(1), of "Suc (rank r)"] obtain ys where
    ys: "iteroperands (Suc (rank r)) h r = Some ys" by auto
  have all: "iteroperands m h r = Some ys" if "rank r < m" for m
    using iteroperands_mono_le [OF _ ys, of m] that by simp
  note p = iteroperands_tree [OF assms(1) ys]
  show ?thesis
    using all [OF assms(2)] all p by blast
qed

lemma scene_reg_operands:
  "operands (node (objs scene_reg e)) = (if e = 2 then [Some 1, Some 0] else [])"
  by (simp add: scene_reg_def build_defs)

lemma scene_reg_tree: "tree_below scene_reg (\<lambda>x. if x = 2 then 1 else 0) 2"
proof -
  have c: "child scene_reg e c \<longleftrightarrow> e = 2 \<and> (c = 0 \<or> c = 1)" for e c
    by (auto simp: child_def scene_reg_operands)
  have g: "getitem scene_reg e (int k) = Inr (Some c) \<longleftrightarrow> e = 2 \<and> (k = 0 \<and> c = 1 \<or> k = 1 \<and> c = 0)"
    for e k c
    by (auto simp: getitem_nat scene_reg_operands less_Suc_eq numeral_2_eq_2)
  show ?thesis
    unfolding tree_below_def c g by auto
qed

text \<open>
  On \<open>e = add_t(value_t(1), loc)\<close> the generator yields the literal, \<open>loc\<close>, then \<open>e\<close>,
  and these are the subtree of \<open>e\<close>.
\<close>

theorem iteroperands_postorder_witness:
  "tree_below scene_reg (\<lambda>x. if x = 2 then 1 else 0) 2
   \<and> iteroperands 2 scene_reg 2 = Some [1, 0, 2]
   \<and> subtree scene_reg 2 = {0, 1, 2}
   \<and> before [1, 0, 2] 1 0 \<and> before [1, 0, 2] 0 2
   \<and> iteroperands 5 scene_reg 2 = Some [1, 0, 2]"
proof -
  have leaf: "iteroperands (Suc 0) scene_reg c = Some [c]" if "c \<noteq> 2" for c
    using that by (simp add: iteroperands_Suc scene_reg_operands child_def)
  have v: "iteroperands (Suc (Suc 0)) scene_reg 2 = Some [1, 0, 2]"
    by (simp add: iteroperands_Suc [of "Suc 0"] scene_reg_operands child_def leaf)
  have r: "(if (2::nat) = 2 then 1 else 0) < (2::nat)" by simp
  from iteroperands_postorder [OF scene_reg_tree r] obtain xs where
    xs: "iteroperands 2 scene_reg 2 = Some xs" "set xs = subtree scene_reg 2"
      "\<forall>m. (if (2::nat) = 2 then 1 else 0) < m \<longrightarrow> iteroperands m scene_reg 2 = Some xs"
    by blast
  have e: "xs = [1, 0, 2]" using xs(1) v by (simp add: numeral_2_eq_2)
  have "iteroperands 5 scene_reg 2 = Some [1, 0, 2]"
    using xs(3) e by simp
  moreover have "subtree scene_reg 2 = {0, 1, 2}"
    using xs(2) e by auto
  moreover have "before [1, 0, 2] 1 0 \<and> before [1, 0, 2] 0 2"
    by (simp add: before_def)
  ultimately show ?thesis
    using scene_reg_tree xs(1) e by simp
qed

end
